theory Spec2Isabelle
  imports Complex_Main "HOL-Library.AList" "HOL-Library.Log_Nat"
begin

section \<open>JavaScript values used by the path finder\<close>

text \<open>
  Vertex keys are strings. A JavaScript object used as a dictionary
  (\<^verbatim>\<open>Record<Key, T>\<close>) is an association list with distinct keys, kept in
  insertion order, which is the order \<^verbatim>\<open>Object.keys\<close> enumerates string keys
  that are not array indices (a key such as \<^verbatim>\<open>"12.5,55.1"\<close> is none).
  Reading a property is \<^const>\<open>map_of\<close>, assigning one is \<^const>\<open>AList.update\<close> (an
  existing key keeps its place, a new key goes last) and \<^verbatim>\<open>delete\<close> is
  \<^const>\<open>AList.delete\<close>.

  A finite Number is the real it stands for. The rounding of an arithmetic result to
  a double is written out where a statement depends on it, in round-coord.ts (see the
  section on Numbers); the sums of weights and biases in the searches and the
  differences of coordinates are exact. \<^verbatim>\<open>NaN\<close> and \<^verbatim>\<open>-Infinity\<close> have no
  counterpart. \<^verbatim>\<open>+Infinity\<close> is kept where the code tests for it (the value a
  bias callback returns).
\<close>

type_synonym key = string

type_synonym 'a obj = "(key \<times> 'a) list"

definition obj_keys :: "'a obj \<Rightarrow> key list" where
  "obj_keys m = map fst m"

datatype number = Finite real | Infinity

text \<open>
  A GeoJSON position \<^verbatim>\<open>[lon, lat, ...rest]\<close>: two components and any further
  ones (elevation). Arrays with fewer than two components are not positions and
  are outside the type.
\<close>

datatype position = Position (lon: real) (lat: real) (rest: "real list")

text \<open>A position read from a table, or \<^verbatim>\<open>undefined\<close>.\<close>

type_synonym coord = "position option"

datatype error =
    TypeError
  | AmbiguousVertex position "key list"
  | Thrown string

text \<open>
  One pass of a \<^verbatim>\<open>while (true)\<close> body either leaves the loop with a result
  or goes on with a new state; a loop that never leaves has the value \<open>None\<close>.
\<close>

datatype ('r, 's) step = Done 'r | Continue 's

partial_function (option) loop :: "('s \<Rightarrow> ('r, 's) step) \<Rightarrow> 's \<Rightarrow> 'r option" where
  "loop body s = (case body s of Done r \<Rightarrow> Some r | Continue s' \<Rightarrow> loop body s')"

declare loop.simps [code]

text \<open>\<^verbatim>\<open>xs.forEach(f)\<close> where \<open>f\<close> may throw: the first throw ends the walk.\<close>

fun forEach :: "('a \<Rightarrow> 's \<Rightarrow> error + 's) \<Rightarrow> 'a list \<Rightarrow> 's \<Rightarrow> error + 's" where
  "forEach f [] s = Inr s"
| "forEach f (x # xs) s = (case f x s of Inl e \<Rightarrow> Inl e | Inr s' \<Rightarrow> forEach f xs s')"

section \<open>Numbers\<close>

text \<open>
  A JavaScript Number is an IEEE 754 double. A finite Number is modelled by the real
  it stands for; \<open>number_value x\<close> is the Number that an arithmetic operation with the
  exact result \<open>x\<close> returns: the multiple of the unit in the last place of \<open>x\<close> nearest
  to \<open>x\<close>, the even multiple on a tie. The unit in the last place is
  \<open>2 ^ (e - 52)\<close> for \<open>2 ^ e \<le> \<bar>x\<bar> < 2 ^ (e + 1)\<close>, and \<open>2 ^ -1074\<close> below the normal
  range, which starts at \<open>2 ^ -1022\<close>. A result beyond the largest Number (about
  \<open>1.8 * 10 ^ 308\<close>), which the program turns into \<^verbatim>\<open>Infinity\<close>, is rounded here as
  if the exponent had no upper limit; \<^verbatim>\<open>-0\<close> is \<open>0\<close>, as it is for \<^verbatim>\<open>===\<close>.

  This rounding is written out for round-coord.ts, where a statement depends on it.
  The sums of weights in the searches and the differences of coordinates in the
  traversal context are exact.
\<close>

definition round_even :: "real \<Rightarrow> int" where
  "round_even y =
     (let f = \<lfloor>y\<rfloor>; r = y - of_int f in
      if r < 1 / 2 then f else if 1 / 2 < r then f + 1 else if even f then f else f + 1)"

text \<open>
  The binade of \<open>x \<noteq> 0\<close>: the \<open>e\<close> with \<open>2 ^ e \<le> \<bar>x\<bar> < 2 ^ (e + 1)\<close>, from the number of
  bits of the integer part of \<open>\<bar>x\<bar>\<close>, or of its reciprocal.
\<close>

definition binade :: "real \<Rightarrow> int" where
  "binade x =
     (if 1 \<le> \<bar>x\<bar> then bitlen \<lfloor>\<bar>x\<bar>\<rfloor> - 1 else - bitlen (\<lceil>1 / \<bar>x\<bar>\<rceil> - 1))"

definition ulp_exponent :: "real \<Rightarrow> int" where
  "ulp_exponent x = max (binade x - 52) (- 1074)"

definition number_value :: "real \<Rightarrow> real" where
  "number_value x =
     (if x = 0 then 0
      else of_int (round_even (x / 2 powi ulp_exponent x)) * 2 powi ulp_exponent x)"

text \<open>The least positive normal Number and the least positive Number.\<close>

definition least_normal :: real where
  "least_normal = 2 powi (- 1022)"

definition least_number :: real where
  "least_number = 2 powi (- 1074)"

section \<open>round-coord.ts\<close>

text \<open>
  \<^verbatim>\<open>Math.round\<close>: the nearest integer, halves rounded up. It is exact: the
  nearest integer of a Number is a Number.
\<close>

definition math_round :: "real \<Rightarrow> real" where
  "math_round x = of_int \<lfloor>x + 1 / 2\<rfloor>"

text \<open>
  \<^verbatim>\<open>Math.round(coord[i] / tolerance) * tolerance\<close> for the first two elements: the
  quotient is rounded to a Number, then to an integer, and the product is rounded to
  a Number. The elements after the second are copied.
\<close>

definition roundCoord :: "position \<Rightarrow> real \<Rightarrow> position" where
  "roundCoord c tolerance =
     Position (number_value (math_round (number_value (lon c / tolerance)) * tolerance))
              (number_value (math_round (number_value (lat c / tolerance)) * tolerance))
              (rest c)"

section \<open>The priority queue (tinyqueue)\<close>

text \<open>
  tinyqueue is an external binary heap. It is modelled by its contract:
  \<^verbatim>\<open>push\<close> adds an entry, \<^verbatim>\<open>pop\<close> removes and returns an entry whose
  priority is least, and returns \<^verbatim>\<open>undefined\<close> on an empty queue. Among entries
  of equal priority this model pops the one pushed first, where the heap pops the
  one its layout puts on top: on a tie the two can hand out different entries of the
  same priority. The statements proved below for every graph use the contract only.
\<close>

definition queue_push :: "'a list \<Rightarrow> 'a \<Rightarrow> 'a list" where
  "queue_push q x = q @ [x]"

fun queue_min :: "('a \<Rightarrow> real) \<Rightarrow> 'a \<Rightarrow> 'a list \<Rightarrow> 'a" where
  "queue_min prio b [] = b"
| "queue_min prio b (y # ys) = queue_min prio (if prio y < prio b then y else b) ys"

fun queue_pop :: "('a \<Rightarrow> real) \<Rightarrow> 'a list \<Rightarrow> ('a \<times> 'a list) option" where
  "queue_pop prio [] = None"
| "queue_pop prio (x # xs) =
     (let m = queue_min prio x xs in Some (m, remove1 m (x # xs)))"

section \<open>Options of the two searches\<close>

text \<open>
  The callbacks a search receives take vertex keys: the bias and guard input is
  \<^verbatim>\<open>{cost, from, to, path}\<close>, the turn input \<^verbatim>\<open>{path, from, to}\<close>, the
  expansion input \<^verbatim>\<open>{key, cost}\<close>. A callback is a function of its input that
  returns a value or throws.

  \<open>search_options\<close> is the options object the facade hands to a search, with
  every property either search or the facade names. Each search reads only the
  properties its source reads.
\<close>

type_synonym bias_input = "real \<times> key \<times> key \<times> key list"

type_synonym turn_input = "key list \<times> key \<times> key"

record search_options =
  directionBias :: "(bias_input \<Rightarrow> error + number) option"
  transitionGuard :: "(bias_input \<Rightarrow> error + bool) option"
  isTurnAllowed :: "(turn_input \<Rightarrow> error + bool) option"
  onNodeExpanded :: "(key \<times> real \<Rightarrow> error option) option"
  coordinates :: "position obj option"

definition no_options :: search_options where
  "no_options = \<lparr> directionBias = None, transitionGuard = None, isTurnAllowed = None,
                  onNodeExpanded = None, coordinates = None \<rparr>"

text \<open>
  What a search hands back: the value it returns (\<^verbatim>\<open>[weight, keys]\<close> or
  \<^verbatim>\<open>undefined\<close>) or the error it throws, and the calls it made to
  \<^verbatim>\<open>onNodeExpanded\<close>, in order.
\<close>

type_synonym search_result = "(error + (real \<times> key list) option) \<times> (key \<times> real) list"

text \<open>\<^verbatim>\<open>options.onNodeExpanded?.({ key: node, cost })\<close>: the call is logged, then it may throw.\<close>

definition notify_expanded ::
  "search_options \<Rightarrow> key \<Rightarrow> real \<Rightarrow> (key \<times> real) list \<Rightarrow> error option \<times> (key \<times> real) list" where
  "notify_expanded options node c calls =
     (case onNodeExpanded options of
        None \<Rightarrow> (None, calls)
      | Some f \<Rightarrow> (f (node, c), calls @ [(node, c)]))"

text \<open>\<^verbatim>\<open>options.directionBias ? options.directionBias({...}) : 0\<close>\<close>

definition bias_of :: "search_options \<Rightarrow> bias_input \<Rightarrow> error + number" where
  "bias_of options inp =
     (case directionBias options of None \<Rightarrow> Inr (Finite 0) | Some f \<Rightarrow> f inp)"

section \<open>dijkstra.ts\<close>

text \<open>A queue entry \<^verbatim>\<open>[cost, path, node]\<close>.\<close>

type_synonym State = "real \<times> key list \<times> key"

record dijkstra_vars =
  d_costs :: "real obj"
  d_queue :: "State list"
  d_calls :: "(key \<times> real) list"

text \<open>
  The body of \<^verbatim>\<open>Object.keys(neighbours).forEach\<close> for the key \<open>n\<close>;
  \<^verbatim>\<open>neighbours[n]\<close> is defined, \<open>n\<close> being a key of \<open>neighbours\<close>.
\<close>

definition dijkstra_relax ::
  "search_options \<Rightarrow> State \<Rightarrow> real obj \<Rightarrow> key \<Rightarrow> real obj \<times> State list \<Rightarrow>
   error + real obj \<times> State list" where
  "dijkstra_relax options state neighbours n cq =
     (case state of (c, p, node) \<Rightarrow>
      case cq of (costs, queue) \<Rightarrow>
      (case (case isTurnAllowed options of None \<Rightarrow> Inr True | Some f \<Rightarrow> f (p, node, n)) of
         Inl e \<Rightarrow> Inl e
       | Inr allowed \<Rightarrow>
           if \<not> allowed then Inr cq
           else (case bias_of options (c, node, n, p) of
                   Inl e \<Rightarrow> Inl e
                 | Inr Infinity \<Rightarrow> Inr cq
                 | Inr (Finite bias) \<Rightarrow>
                     (case map_of neighbours n of
                        None \<Rightarrow> Inr cq
                      | Some w \<Rightarrow>
                          (let newCost = c + w + bias in
                           if (case map_of costs n of None \<Rightarrow> True | Some old \<Rightarrow> newCost < old)
                           then Inr (AList.update n newCost costs,
                                     queue_push queue (newCost, p @ [n], n))
                           else Inr cq)))))"

definition dijkstra_body ::
  "real obj obj \<Rightarrow> key \<Rightarrow> search_options \<Rightarrow> dijkstra_vars \<Rightarrow> (search_result, dijkstra_vars) step" where
  "dijkstra_body graph end options v =
     (case queue_pop fst (d_queue v) of
        None \<Rightarrow> Done (Inr None, d_calls v)
      | Some (state, queue) \<Rightarrow>
          (case state of (c, p, node) \<Rightarrow>
           (case notify_expanded options node c (d_calls v) of
              (Some e, calls) \<Rightarrow> Done (Inl e, calls)
            | (None, calls) \<Rightarrow>
                if node = end then Done (Inr (Some (c, p)), calls)
                else (case map_of graph node of
                        None \<Rightarrow> Done (Inl TypeError, calls)
                      | Some neighbours \<Rightarrow>
                          (case forEach (dijkstra_relax options state neighbours) (obj_keys neighbours)
                                  (d_costs v, queue) of
                             Inl e \<Rightarrow> Done (Inl e, calls)
                           | Inr (costs, queue') \<Rightarrow>
                               Continue \<lparr> d_costs = costs, d_queue = queue', d_calls = calls \<rparr>)))))"

definition findPathDijkstra ::
  "real obj obj \<Rightarrow> key \<Rightarrow> key \<Rightarrow> search_options \<Rightarrow> search_result option" where
  "findPathDijkstra graph start end options =
     loop (dijkstra_body graph end options)
       \<lparr> d_costs = [(start, 0)], d_queue = [(0, [start], start)], d_calls = [] \<rparr>"

section \<open>a-star.ts\<close>

text \<open>
  \<^verbatim>\<open>distance(point(a), point(b))\<close> of @turf/distance is an external function
  (the great-circle distance in kilometres); the searches take it as the
  parameter \<open>distance\<close>.
\<close>

definition heuristic ::
  "(position \<Rightarrow> position \<Rightarrow> real) \<Rightarrow> key \<Rightarrow> key \<Rightarrow> position obj option \<Rightarrow> real" where
  "heuristic distance k goal coords =
     (case coords of
        None \<Rightarrow> 0
      | Some cs \<Rightarrow>
          (case map_of cs k of
             None \<Rightarrow> 0
           | Some startCoordinate \<Rightarrow>
               (case map_of cs goal of
                  None \<Rightarrow> 0
                | Some goalCoordinate \<Rightarrow> distance startCoordinate goalCoordinate)))"

text \<open>A queue entry \<^verbatim>\<open>{cost, estimate, path, node}\<close>.\<close>

type_synonym AState = "real \<times> real \<times> key list \<times> key"

record astar_vars =
  a_costs :: "real obj"
  a_queue :: "AState list"
  a_calls :: "(key \<times> real) list"

definition astar_relax ::
  "(position \<Rightarrow> position \<Rightarrow> real) \<Rightarrow> key \<Rightarrow> search_options \<Rightarrow> AState \<Rightarrow> real obj \<Rightarrow> key \<Rightarrow>
   real obj \<times> AState list \<Rightarrow> error + real obj \<times> AState list" where
  "astar_relax distance end options state neighbours n cq =
     (case state of (c, est, p, node) \<Rightarrow>
      case cq of (costs, queue) \<Rightarrow>
      (case bias_of options (c, node, n, p) of
         Inl e \<Rightarrow> Inl e
       | Inr Infinity \<Rightarrow> Inr cq
       | Inr (Finite bias) \<Rightarrow>
           (case map_of neighbours n of
              None \<Rightarrow> Inr cq
            | Some w \<Rightarrow>
                (let newCost = c + w + bias in
                 if (case map_of costs n of None \<Rightarrow> True | Some old \<Rightarrow> newCost < old)
                 then (let estimate = newCost + heuristic distance n end (coordinates options) in
                       Inr (AList.update n newCost costs,
                            queue_push queue (newCost, estimate, p @ [n], n)))
                 else Inr cq))))"

definition astar_body ::
  "(position \<Rightarrow> position \<Rightarrow> real) \<Rightarrow> real obj obj \<Rightarrow> key \<Rightarrow> search_options \<Rightarrow> astar_vars \<Rightarrow>
   (search_result, astar_vars) step" where
  "astar_body distance graph end options v =
     (case queue_pop (\<lambda>s. fst (snd s)) (a_queue v) of
        None \<Rightarrow> Done (Inr None, a_calls v)
      | Some (state, queue) \<Rightarrow>
          (case state of (c, est, p, node) \<Rightarrow>
           if (case map_of (a_costs v) node of None \<Rightarrow> False | Some best \<Rightarrow> c > best)
           then Continue (v\<lparr> a_queue := queue \<rparr>)
           else
           (case notify_expanded options node c (a_calls v) of
              (Some e, calls) \<Rightarrow> Done (Inl e, calls)
            | (None, calls) \<Rightarrow>
                if node = end then Done (Inr (Some (c, p)), calls)
                else (case map_of graph node of
                        None \<Rightarrow> Done (Inl TypeError, calls)
                      | Some neighbours \<Rightarrow>
                          (case forEach (astar_relax distance end options state neighbours)
                                  (obj_keys neighbours) (a_costs v, queue) of
                             Inl e \<Rightarrow> Done (Inl e, calls)
                           | Inr (costs, queue') \<Rightarrow>
                               Continue \<lparr> a_costs = costs, a_queue = queue', a_calls = calls \<rparr>)))))"

definition findPathAStar ::
  "(position \<Rightarrow> position \<Rightarrow> real) \<Rightarrow> real obj obj \<Rightarrow> key \<Rightarrow> key \<Rightarrow> search_options \<Rightarrow>
   search_result option" where
  "findPathAStar distance graph start end options =
     loop (astar_body distance graph end options)
       \<lparr> a_costs = [(start, 0)],
         a_queue = [(0, heuristic distance start end (coordinates options), [start], start)],
         a_calls = [] \<rparr>"

section \<open>index.ts: the graph and the phantom vertices\<close>

record 'e PathFinderGraph =
  vertices :: "real obj obj"
  edgeData :: "'e option obj obj"
  sourceCoordinates :: "position obj"
  compactedVertices :: "real obj obj"
  compactedCoordinates :: "coord list obj obj"
  compactedEdges :: "'e option obj obj option"

text \<open>
  \<open>compactedEdges\<close> is optional in the model because \<^verbatim>\<open>_createPhantom\<close> and
  \<^verbatim>\<open>_removePhantom\<close> test \<^verbatim>\<open>if (this.graph.compactedEdges)\<close>; an edge payload
  is a value or \<^verbatim>\<open>undefined\<close>.

  \<^verbatim>\<open>compactNode\<close> lives in compactor.ts, which is not among the files; the
  facade takes it as a parameter. What it returns is the record below.
\<close>

record 'e phantom =
  edges :: "real obj"
  incomingEdges :: "real obj"
  ph_coordinates :: "coord list obj"
  incomingCoordinates :: "coord list obj"
  reducedEdges :: "'e option obj"

text \<open>State-changing statements that may throw: the error, if any, and the state reached.\<close>

fun forEach_st :: "('a \<Rightarrow> 's \<Rightarrow> error option \<times> 's) \<Rightarrow> 'a list \<Rightarrow> 's \<Rightarrow> error option \<times> 's" where
  "forEach_st f [] s = (None, s)"
| "forEach_st f (x # xs) s =
     (case f x s of (Some e, s') \<Rightarrow> (Some e, s') | (None, s') \<Rightarrow> forEach_st f xs s')"

text \<open>
  The body of \<^verbatim>\<open>Object.keys(phantom.incomingEdges).forEach\<close> in
  \<^verbatim>\<open>_createPhantom\<close>, for the key \<open>neighbor\<close> (so
  \<^verbatim>\<open>phantom.incomingEdges[neighbor]\<close> is defined). Assigning into
  \<^verbatim>\<open>compactedVertices[neighbor]\<close> throws when that is undefined, and so does
  \<^verbatim>\<open>.slice\<close> on an undefined \<^verbatim>\<open>incomingCoordinates[neighbor]\<close>.
\<close>

definition createPhantom_incoming ::
  "'e phantom \<Rightarrow> key \<Rightarrow> key \<Rightarrow> 'e PathFinderGraph \<Rightarrow> error option \<times> 'e PathFinderGraph" where
  "createPhantom_incoming ph n neighbor g =
     (case map_of (incomingEdges ph) neighbor of
        None \<Rightarrow> (None, g)
      | Some w \<Rightarrow>
      (case map_of (compactedVertices g) neighbor of
         None \<Rightarrow> (Some TypeError, g)
       | Some nv \<Rightarrow>
           (let g1 = g\<lparr> compactedVertices :=
                          AList.update neighbor (AList.update n w nv) (compactedVertices g) \<rparr>;
                g2 = (if map_of (compactedCoordinates g1) neighbor = None
                      then g1\<lparr> compactedCoordinates :=
                                 AList.update neighbor [] (compactedCoordinates g1) \<rparr>
                      else g1)
            in (case map_of (incomingCoordinates ph) neighbor of
                  None \<Rightarrow> (Some TypeError, g2)
                | Some ic \<Rightarrow>
                    (let nc = (case map_of (compactedCoordinates g2) neighbor of
                                 None \<Rightarrow> [] | Some m \<Rightarrow> m);
                         g3 = g2\<lparr> compactedCoordinates :=
                                    AList.update neighbor
                                      (AList.update n
                                         (map_of (sourceCoordinates g2) neighbor # butlast ic) nc)
                                      (compactedCoordinates g2) \<rparr>
                     in (case compactedEdges g3 of
                           None \<Rightarrow> (None, g3)
                         | Some ce \<Rightarrow>
                             (let ne = (case map_of ce neighbor of None \<Rightarrow> [] | Some m \<Rightarrow> m);
                                  payload = (case map_of (reducedEdges ph) neighbor of
                                               None \<Rightarrow> None | Some d \<Rightarrow> d)
                              in (None,
                                  g3\<lparr> compactedEdges :=
                                        Some (AList.update neighbor (AList.update n payload ne) ce) \<rparr>))))))))"

definition createPhantom ::
  "(key \<Rightarrow> 'e PathFinderGraph \<Rightarrow> 'e phantom) \<Rightarrow> bool \<Rightarrow> key \<Rightarrow> 'e PathFinderGraph \<Rightarrow>
   (error + key option) \<times> 'e PathFinderGraph" where
  "createPhantom compactNode hasEdgeDataReducer n g =
     (if map_of (compactedVertices g) n \<noteq> None then (Inr None, g)
      else
        (let ph = compactNode n g;
             g1 = g\<lparr> compactedVertices := AList.update n (edges ph) (compactedVertices g),
                      compactedCoordinates :=
                        AList.update n (ph_coordinates ph) (compactedCoordinates g) \<rparr>
         in (case (if hasEdgeDataReducer
                   then (case compactedEdges g1 of
                           None \<Rightarrow> (Some TypeError, g1)
                         | Some ce \<Rightarrow>
                             (None, g1\<lparr> compactedEdges :=
                                          Some (AList.update n (reducedEdges ph) ce) \<rparr>))
                   else (None, g1)) of
               (Some e, g2) \<Rightarrow> (Inl e, g2)
             | (None, g2) \<Rightarrow>
                 (case forEach_st (createPhantom_incoming ph n) (obj_keys (incomingEdges ph)) g2 of
                    (Some e, g3) \<Rightarrow> (Inl e, g3)
                  | (None, g3) \<Rightarrow> (Inr (Some n), g3)))))"

text \<open>
  \<^verbatim>\<open>Object.keys(tbl[n]).forEach((neighbor) => { delete tbl[neighbor][n]; })\<close>
  over the keys \<open>ns\<close>: \<^verbatim>\<open>delete\<close> throws when \<^verbatim>\<open>tbl[neighbor]\<close> is undefined.
\<close>

fun delete_from_each :: "key \<Rightarrow> key list \<Rightarrow> 'a obj obj \<Rightarrow> error option \<times> 'a obj obj" where
  "delete_from_each n [] tbl = (None, tbl)"
| "delete_from_each n (neighbor # ns) tbl =
     (case map_of tbl neighbor of
        None \<Rightarrow> (Some TypeError, tbl)
      | Some m \<Rightarrow> delete_from_each n ns (AList.update neighbor (AList.delete n m) tbl))"

text \<open>
  \<^verbatim>\<open>_removePhantom(n)\<close>; \<^verbatim>\<open>if (!n) return\<close> also returns on the empty string.
  \<^verbatim>\<open>Object.keys\<close> of an undefined table entry throws.
\<close>

definition removePhantom ::
  "bool \<Rightarrow> key option \<Rightarrow> 'e PathFinderGraph \<Rightarrow> error option \<times> 'e PathFinderGraph" where
  "removePhantom hasEdgeDataReducer phantomKey g =
     (case phantomKey of
        None \<Rightarrow> (None, g)
      | Some n \<Rightarrow>
          if n = [] then (None, g)
          else
          (case map_of (compactedVertices g) n of
             None \<Rightarrow> (Some TypeError, g)
           | Some nv \<Rightarrow>
               (case delete_from_each n (obj_keys nv) (compactedVertices g) of
                  (Some e, cv) \<Rightarrow> (Some e, g\<lparr> compactedVertices := cv \<rparr>)
                | (None, cv) \<Rightarrow>
                    (let g1 = g\<lparr> compactedVertices := cv \<rparr> in
                     (case map_of (compactedCoordinates g1) n of
                        None \<Rightarrow> (Some TypeError, g1)
                      | Some nc \<Rightarrow>
                          (case delete_from_each n (obj_keys nc) (compactedCoordinates g1) of
                             (Some e, cc) \<Rightarrow> (Some e, g1\<lparr> compactedCoordinates := cc \<rparr>)
                           | (None, cc) \<Rightarrow>
                               (let g2 = g1\<lparr> compactedCoordinates := cc \<rparr> in
                                (case (if hasEdgeDataReducer
                                       then (case compactedEdges g2 of
                                               None \<Rightarrow> (Some TypeError, g2)
                                             | Some ce \<Rightarrow>
                                                 (case map_of ce n of
                                                    None \<Rightarrow> (Some TypeError, g2)
                                                  | Some ne \<Rightarrow>
                                                      (case delete_from_each n (obj_keys ne) ce of
                                                         (r, ce') \<Rightarrow>
                                                           (r, g2\<lparr> compactedEdges := Some ce' \<rparr>))))
                                       else (None, g2)) of
                                   (Some e, g3) \<Rightarrow> (Some e, g3)
                                 | (None, g3) \<Rightarrow>
                                     (let g4 = g3\<lparr> compactedVertices :=
                                                      AList.delete n (compactedVertices g3),
                                                    compactedCoordinates :=
                                                      AList.delete n (compactedCoordinates g3) \<rparr>
                                      in (None,
                                          (case compactedEdges g4 of
                                             None \<Rightarrow> g4
                                           | Some ce \<Rightarrow>
                                               g4\<lparr> compactedEdges :=
                                                     Some (AList.delete n ce) \<rparr>)))))))))))"

section \<open>index.ts: searching\<close>

text \<open>The context a user callback receives (\<^verbatim>\<open>DirectionBiasContext\<close> of types.ts).\<close>

record DirectionBiasContext =
  ctx_from :: position
  ctx_to :: position
  ctx_goal :: position
  fromToVector :: "real \<times> real"
  fromGoalVector :: "real \<times> real"
  toGoalVector :: "real \<times> real"
  ctx_previous :: "position option"
  previousToFromVector :: "(real \<times> real) option"
  ctx_path :: "key list"
  ctx_cost :: real

text \<open>What a user's \<^verbatim>\<open>transitionGuard\<close> may return (\<^verbatim>\<open>boolean | void\<close>, or anything).\<close>

datatype jsvalue = JSUndefined | JSBoolean bool | JSNumber real | JSString string

datatype algorithm = Dijkstra | AStar

record PathFinderSearchOptions =
  user_directionBias :: "(DirectionBiasContext \<Rightarrow> error + number) option"
  user_transitionGuard :: "(DirectionBiasContext \<Rightarrow> error + jsvalue) option"
  algorithm :: "algorithm option"
  user_onNodeExpanded :: "(key \<times> real \<Rightarrow> error option) option"

text \<open>\<^verbatim>\<open>searchOptions = {}\<close>\<close>

definition default_searchOptions :: PathFinderSearchOptions where
  "default_searchOptions =
     \<lparr> user_directionBias = None, user_transitionGuard = None, algorithm = None,
       user_onNodeExpanded = None \<rparr>"

text \<open>A \<^verbatim>\<open>Path\<close>: \<^verbatim>\<open>{path, weight, edgeDatas}\<close>.\<close>

datatype 'e Path = Path "coord list" real "'e option list option"

datatype pool_handle = PoolUndefined | PoolNull | Pool

text \<open>
  The fields of the facade. \<open>key_option\<close> and \<open>tolerance_option\<close> are
  \<^verbatim>\<open>options.key\<close> and \<^verbatim>\<open>options.tolerance\<close>, \<open>worker_enabled\<close> is
  \<^verbatim>\<open>options.worker?.enabled\<close>.
\<close>

record 'e PathFinder =
  graph :: "'e PathFinderGraph"
  key_option :: "(position \<Rightarrow> key) option"
  tolerance_option :: "real option"
  hasEdgeDataReducer :: bool
  worker_enabled :: bool
  workerPool :: pool_handle

text \<open>
  What the facade imports from files that are not among the sources, and from
  its run-time environment: \<^verbatim>\<open>compactNode\<close> (compactor.ts), \<^verbatim>\<open>defaultKey\<close>
  (topology.ts), the distance of @turf/distance, whether the worker-pool module
  can be loaded, whether the platform has worker threads (\<^verbatim>\<open>loadWorkerThreads\<close>
  of worker-pool.ts resolves to a module), and whether the pool's constructor finds
  the worker script (\<^verbatim>\<open>resolveWorkerSpecifier\<close>).
\<close>

record 'e externals =
  compactNode :: "key \<Rightarrow> 'e PathFinderGraph \<Rightarrow> 'e phantom"
  defaultKey :: "position \<Rightarrow> key"
  turf_distance :: "position \<Rightarrow> position \<Rightarrow> real"
  worker_module_loads :: bool
  worker_threads_available :: bool
  worker_script_found :: bool

definition resolveCompactedCoordinate :: "'e PathFinderGraph \<Rightarrow> key \<Rightarrow> key \<Rightarrow> coord" where
  "resolveCompactedCoordinate g from_key to_key =
     (case map_of (compactedCoordinates g) from_key of
        None \<Rightarrow> None
      | Some m \<Rightarrow>
          (case map_of m to_key of
             None \<Rightarrow> None
           | Some cs \<Rightarrow> if cs = [] then None else last cs))"

text \<open>\<^verbatim>\<open>a ?? b\<close>\<close>

definition orElse :: "'a option \<Rightarrow> 'a option \<Rightarrow> 'a option" where
  "orElse a b = (case a of None \<Rightarrow> b | Some x \<Rightarrow> Some x)"

definition vector :: "position \<Rightarrow> position \<Rightarrow> real \<times> real" where
  "vector a b = (lon b - lon a, lat b - lat a)"

definition buildTraversalContext ::
  "'e PathFinderGraph \<Rightarrow> coord \<Rightarrow> bias_input \<Rightarrow> DirectionBiasContext option" where
  "buildTraversalContext g goalCoordinate inp =
     (case inp of (c, from_key, to_key, p) \<Rightarrow>
      (let previousKey = (if length p > 1 then Some (p ! (length p - 2)) else None);
           fromCoordinate =
             orElse (map_of (sourceCoordinates g) from_key)
                    (case previousKey of
                       None \<Rightarrow> None
                     | Some pk \<Rightarrow> resolveCompactedCoordinate g pk from_key);
           toCoordinate =
             orElse (map_of (sourceCoordinates g) to_key)
                    (resolveCompactedCoordinate g from_key to_key)
       in (case (fromCoordinate, toCoordinate, goalCoordinate) of
             (Some fc, Some tc, Some gc) \<Rightarrow>
               (let previousCoordinate =
                      (case previousKey of
                         None \<Rightarrow> None
                       | Some pk \<Rightarrow>
                           orElse (map_of (sourceCoordinates g) pk)
                                  (resolveCompactedCoordinate g pk from_key))
                in Some \<lparr> ctx_from = fc, ctx_to = tc, ctx_goal = gc,
                          fromToVector = vector fc tc,
                          fromGoalVector = vector fc gc,
                          toGoalVector = vector tc gc,
                          ctx_previous = previousCoordinate,
                          previousToFromVector =
                            (case previousCoordinate of
                               None \<Rightarrow> None
                             | Some pc \<Rightarrow> Some (vector pc fc)),
                          ctx_path = p, ctx_cost = c \<rparr>)
           | _ \<Rightarrow> None)))"

text \<open>
  The options object built inside \<^verbatim>\<open>findPathFromVertexKeys\<close>: the wrapped
  bias, the wrapped guard (it answers \<^verbatim>\<open>result !== false\<close>) and the
  expansion callback, each present only when the user's is (and, for the first
  two, the goal has a coordinate).
\<close>

definition sharedOptions :: "'e PathFinderGraph \<Rightarrow> key \<Rightarrow> PathFinderSearchOptions \<Rightarrow> search_options" where
  "sharedOptions g finish searchOptions =
     (let goalCoordinate = map_of (sourceCoordinates g) finish in
      \<lparr> directionBias =
          (case (user_directionBias searchOptions, goalCoordinate) of
             (Some f, Some gc) \<Rightarrow>
               Some (\<lambda>inp. case buildTraversalContext g goalCoordinate inp of
                              None \<Rightarrow> Inr (Finite 0)
                            | Some context \<Rightarrow> f context)
           | _ \<Rightarrow> None),
        transitionGuard =
          (case (user_transitionGuard searchOptions, goalCoordinate) of
             (Some f, Some gc) \<Rightarrow>
               Some (\<lambda>inp. case buildTraversalContext g goalCoordinate inp of
                              None \<Rightarrow> Inr True
                            | Some context \<Rightarrow>
                                (case f context of
                                   Inl e \<Rightarrow> Inl e
                                 | Inr result \<Rightarrow> Inr (result \<noteq> JSBoolean False)))
           | _ \<Rightarrow> None),
        isTurnAllowed = None,
        onNodeExpanded = user_onNodeExpanded searchOptions,
        coordinates = None \<rparr>)"

text \<open>
  \<^verbatim>\<open>path.reduce\<close> over the key sequence: the stored coordinate lists of the
  consecutive pairs, concatenated. Indexing an undefined
  \<^verbatim>\<open>compactedCoordinates[prev]\<close> throws; \<^verbatim>\<open>concat(undefined)\<close> appends
  \<^verbatim>\<open>undefined\<close>.
\<close>

fun path_coordinates :: "'e PathFinderGraph \<Rightarrow> key list \<Rightarrow> error + coord list" where
  "path_coordinates g (a # b # ks) =
     (case map_of (compactedCoordinates g) a of
        None \<Rightarrow> Inl TypeError
      | Some m \<Rightarrow>
          (case path_coordinates g (b # ks) of
             Inl e \<Rightarrow> Inl e
           | Inr cs \<Rightarrow> Inr ((case map_of m b of None \<Rightarrow> [None] | Some xs \<Rightarrow> xs) @ cs)))"
| "path_coordinates g ks = Inr []"

fun path_edgeDatas :: "'e PathFinderGraph \<Rightarrow> key list \<Rightarrow> error + 'e option list" where
  "path_edgeDatas g (a # b # ks) =
     (case compactedEdges g of
        None \<Rightarrow> Inl TypeError
      | Some ce \<Rightarrow>
          (case map_of ce a of
             None \<Rightarrow> Inl TypeError
           | Some m \<Rightarrow>
               (case path_edgeDatas g (b # ks) of
                  Inl e \<Rightarrow> Inl e
                | Inr ds \<Rightarrow> Inr ((case map_of m b of None \<Rightarrow> None | Some d \<Rightarrow> d) # ds))))"
| "path_edgeDatas g ks = Inr []"

definition reconstruct ::
  "bool \<Rightarrow> 'e PathFinderGraph \<Rightarrow> key \<Rightarrow> real \<times> key list \<Rightarrow> error + 'e Path option" where
  "reconstruct hasReducer g finish pathResult =
     (case pathResult of (weight, p) \<Rightarrow>
      (case path_coordinates g p of
         Inl e \<Rightarrow> Inl e
       | Inr cs \<Rightarrow>
           if hasReducer
           then (case path_edgeDatas g p of
                   Inl e \<Rightarrow> Inl e
                 | Inr ds \<Rightarrow>
                     Inr (Some (Path (cs @ [map_of (sourceCoordinates g) finish]) weight (Some ds))))
           else Inr (Some (Path (cs @ [map_of (sourceCoordinates g) finish]) weight None))))"

text \<open>
  \<^verbatim>\<open>findPathFromVertexKeys\<close>: the value returned or the error thrown, and the
  facade with the graph as the call leaves it; \<open>None\<close> when the search does not
  return. The two phantoms are created before the \<^verbatim>\<open>try\<close>; the
  \<^verbatim>\<open>finally\<close> block removes them, and an error thrown there replaces the
  outcome of the \<^verbatim>\<open>try\<close> block.
\<close>

definition findPathFromVertexKeys ::
  "'e externals \<Rightarrow> 'e PathFinder \<Rightarrow> key \<Rightarrow> key \<Rightarrow> PathFinderSearchOptions \<Rightarrow>
   ((error + 'e Path option) \<times> 'e PathFinder) option" where
  "findPathFromVertexKeys ext pf start finish searchOptions =
     (if map_of (vertices (graph pf)) start = None \<or> map_of (vertices (graph pf)) finish = None
      then Some (Inr None, pf)
      else
      (case createPhantom (compactNode ext) (hasEdgeDataReducer pf) start (graph pf) of
         (Inl e, g1) \<Rightarrow> Some (Inl e, pf\<lparr> graph := g1 \<rparr>)
       | (Inr phantomStart, g1) \<Rightarrow>
           (case createPhantom (compactNode ext) (hasEdgeDataReducer pf) finish g1 of
              (Inl e, g2) \<Rightarrow> Some (Inl e, pf\<lparr> graph := g2 \<rparr>)
            | (Inr phantomEnd, g2) \<Rightarrow>
                (case (if algorithm searchOptions = Some AStar
                       then findPathAStar (turf_distance ext) (compactedVertices g2) start finish
                              ((sharedOptions g2 finish searchOptions)
                                 \<lparr> coordinates := Some (sourceCoordinates g2) \<rparr>)
                       else findPathDijkstra (compactedVertices g2) start finish
                              (sharedOptions g2 finish searchOptions)) of
                   None \<Rightarrow> None
                 | Some (outcome, calls) \<Rightarrow>
                     (let tried = (case outcome of
                                     Inl e \<Rightarrow> Inl e
                                   | Inr None \<Rightarrow> Inr None
                                   | Inr (Some pathResult) \<Rightarrow>
                                       reconstruct (hasEdgeDataReducer pf) g2 finish pathResult)
                      in (case removePhantom (hasEdgeDataReducer pf) phantomStart g2 of
                            (Some e, g3) \<Rightarrow> Some (Inl e, pf\<lparr> graph := g3 \<rparr>)
                          | (None, g3) \<Rightarrow>
                              (case removePhantom (hasEdgeDataReducer pf) phantomEnd g3 of
                                 (Some e, g4) \<Rightarrow> Some (Inl e, pf\<lparr> graph := g4 \<rparr>)
                               | (None, g4) \<Rightarrow> Some (tried, pf\<lparr> graph := g4 \<rparr>))))))))"

text \<open>
  \<^verbatim>\<open>_resolveVertexKey\<close>: the key of the rounded query if it is a vertex;
  otherwise the keys whose source coordinate rounds to the query are collected,
  and one match is returned, several are an error, none gives the direct key.
\<close>

definition resolveVertexKey ::
  "'e PathFinderGraph \<Rightarrow> position \<Rightarrow> (position \<Rightarrow> key) \<Rightarrow> real \<Rightarrow> error + key" where
  "resolveVertexKey g coordinate keyFn tolerance =
     (let directKey = keyFn coordinate in
      if map_of (vertices g) directKey \<noteq> None then Inr directKey
      else
        (let matches =
               map fst
                 (filter (\<lambda>(vertexKey, sourceCoordinate).
                            lon (roundCoord sourceCoordinate tolerance) = lon coordinate \<and>
                            lat (roundCoord sourceCoordinate tolerance) = lat coordinate)
                         (sourceCoordinates g))
         in if length matches = 1 then Inr (matches ! 0)
            else if length matches > 1 then Inl (AmbiguousVertex coordinate matches)
            else Inr directKey))"

definition key_of :: "'e externals \<Rightarrow> 'e PathFinder \<Rightarrow> position \<Rightarrow> key" where
  "key_of ext pf = (case key_option pf of None \<Rightarrow> defaultKey ext | Some k \<Rightarrow> k)"

definition tolerance_of :: "'e PathFinder \<Rightarrow> real" where
  "tolerance_of pf = (case tolerance_option pf of None \<Rightarrow> number_value (1 / 100000) | Some t \<Rightarrow> t)"

text \<open>\<^verbatim>\<open>findPath(a, b, searchOptions)\<close>, the points given by their coordinates.\<close>

definition findPath ::
  "'e externals \<Rightarrow> 'e PathFinder \<Rightarrow> position \<Rightarrow> position \<Rightarrow> PathFinderSearchOptions \<Rightarrow>
   ((error + 'e Path option) \<times> 'e PathFinder) option" where
  "findPath ext pf a b searchOptions =
     (case resolveVertexKey (graph pf) (roundCoord a (tolerance_of pf)) (key_of ext pf) (tolerance_of pf) of
        Inl e \<Rightarrow> Some (Inl e, pf)
      | Inr start \<Rightarrow>
          (case resolveVertexKey (graph pf) (roundCoord b (tolerance_of pf)) (key_of ext pf)
                  (tolerance_of pf) of
             Inl e \<Rightarrow> Some (Inl e, pf)
           | Inr finish \<Rightarrow>
               if map_of (vertices (graph pf)) start = None \<or> map_of (vertices (graph pf)) finish = None
               then Some (Inr None, pf)
               else findPathFromVertexKeys ext pf start finish searchOptions))"

section \<open>index.ts and worker-pool.ts: findPathAsync\<close>










section \<open>Weights along a key sequence\<close>

text \<open>
  The cost a search accumulates along the keys \<open>ns\<close>, starting with cost \<open>c\<close>
  at the end of the key sequence \<open>p\<close>: each step adds the weight of the edge and
  the bias the options give for it. \<open>None\<close> when an edge is missing or a bias
  is not a finite number.
\<close>

definition edge_cost :: "search_options \<Rightarrow> real obj obj \<Rightarrow> real \<Rightarrow> key list \<Rightarrow> key \<Rightarrow> real option" where
  "edge_cost options g c p n =
     (case map_of g (last p) of
        None \<Rightarrow> None
      | Some neighbours \<Rightarrow>
          (case map_of neighbours n of
             None \<Rightarrow> None
           | Some w \<Rightarrow>
               (case bias_of options (c, last p, n, p) of
                  Inr (Finite bias) \<Rightarrow> Some (c + w + bias)
                | _ \<Rightarrow> None)))"

fun walk_cost :: "search_options \<Rightarrow> real obj obj \<Rightarrow> real \<Rightarrow> key list \<Rightarrow> key list \<Rightarrow> real option" where
  "walk_cost options g c p [] = Some c"
| "walk_cost options g c p (n # ns) =
     (case edge_cost options g c p n of
        None \<Rightarrow> None
      | Some c' \<Rightarrow> walk_cost options g c' (p @ [n]) ns)"

text \<open>The sum of the edge weights \<^verbatim>\<open>graph[k0][k1] + graph[k1][k2] + ...\<close> of a key sequence.\<close>

fun path_weight :: "real obj obj \<Rightarrow> key list \<Rightarrow> real option" where
  "path_weight g (a # b # ks) =
     (case map_of g a of
        None \<Rightarrow> None
      | Some neighbours \<Rightarrow>
          (case map_of neighbours b of
             None \<Rightarrow> None
           | Some w \<Rightarrow> map_option ((+) w) (path_weight g (b # ks))))"
| "path_weight g ks = Some 0"

text \<open>
  \<open>costed\<close>: the key sequence \<open>p\<close> starts at \<open>start\<close>, ends at \<open>n\<close>, and
  the cost accumulated along it is \<open>c\<close>.
\<close>

definition costed :: "search_options \<Rightarrow> real obj obj \<Rightarrow> key \<Rightarrow> real \<Rightarrow> key list \<Rightarrow> key \<Rightarrow> bool" where
  "costed options g start c p n \<longleftrightarrow>
     (\<exists>ns. p = start # ns \<and> last p = n \<and> walk_cost options g 0 [start] ns = Some c)"

section \<open>Notions the statements use\<close>

text \<open>
  The graph a search of \<^verbatim>\<open>findPathFromVertexKeys\<close> runs on: the facade's
  graph after \<^verbatim>\<open>_createPhantom(start)\<close> and \<^verbatim>\<open>_createPhantom(finish)\<close>.
\<close>

definition phantom_graph :: "'e externals \<Rightarrow> 'e PathFinder \<Rightarrow> key \<Rightarrow> key \<Rightarrow> 'e PathFinderGraph" where
  "phantom_graph ext pf start finish =
     snd (createPhantom (compactNode ext) (hasEdgeDataReducer pf) finish
            (snd (createPhantom (compactNode ext) (hasEdgeDataReducer pf) start (graph pf))))"

text \<open>The search \<^verbatim>\<open>findPathFromVertexKeys\<close> runs, on the graph \<open>g\<close>.\<close>

definition run_search ::
  "'e externals \<Rightarrow> 'e PathFinderGraph \<Rightarrow> key \<Rightarrow> key \<Rightarrow> PathFinderSearchOptions \<Rightarrow> search_result option" where
  "run_search ext g start finish searchOptions =
     (if algorithm searchOptions = Some AStar
      then findPathAStar (turf_distance ext) (compactedVertices g) start finish
             ((sharedOptions g finish searchOptions)\<lparr> coordinates := Some (sourceCoordinates g) \<rparr>)
      else findPathDijkstra (compactedVertices g) start finish
             (sharedOptions g finish searchOptions))"

text \<open>
  \<open>registered\<close>: the graph stores, for the edge from \<open>k\<close> to the phantom
  \<open>n\<close>, the coordinate of \<open>k\<close> followed by \<^verbatim>\<open>incomingCoordinates[k]\<close>
  without its last element.
\<close>

definition registered ::
  "'e phantom \<Rightarrow> key \<Rightarrow> position obj \<Rightarrow> 'e PathFinderGraph \<Rightarrow> key \<Rightarrow> bool" where
  "registered ph n src g k \<longleftrightarrow>
     (\<exists>m ic. map_of (compactedCoordinates g) k = Some m \<and>
              map_of (incomingCoordinates ph) k = Some ic \<and>
              map_of m n = Some (map_of src k # butlast ic))"

text \<open>
  The keys \<^verbatim>\<open>_resolveVertexKey\<close> collects: those whose source coordinate
  rounds to the (rounded) query coordinate.
\<close>

definition matching_keys :: "'e PathFinderGraph \<Rightarrow> position \<Rightarrow> real \<Rightarrow> key list" where
  "matching_keys g coordinate tolerance =
     map fst
       (filter (\<lambda>(vertexKey, sourceCoordinate).
                  lon (roundCoord sourceCoordinate tolerance) = lon coordinate \<and>
                  lat (roundCoord sourceCoordinate tolerance) = lat coordinate)
               (sourceCoordinates g))"

text \<open>The resolution of an endpoint of \<^verbatim>\<open>findPath\<close>, from the point's coordinates.\<close>

definition resolve :: "'e externals \<Rightarrow> 'e PathFinder \<Rightarrow> position \<Rightarrow> error + key" where
  "resolve ext pf point =
     resolveVertexKey (graph pf) (roundCoord point (tolerance_of pf)) (key_of ext pf) (tolerance_of pf)"

text \<open>
  \<^verbatim>\<open>_ensureWorkerPool\<close> hands back a pool: the pool is not switched off
  (\<^verbatim>\<open>null\<close>), workers are enabled, no reducer is configured, and the pool
  exists already or can be built (the worker-pool module loads and its constructor
  finds the worker script). The pool cannot be built: it does not exist yet, nothing
  switches it off, the module loads, and the constructor finds no worker script.
\<close>

definition pool_available :: "'e externals \<Rightarrow> 'e PathFinder \<Rightarrow> bool" where
  "pool_available ext pf \<longleftrightarrow>
     workerPool pf \<noteq> PoolNull \<and> worker_enabled pf \<and> \<not> hasEdgeDataReducer pf \<and>
     (workerPool pf = Pool \<or> (worker_module_loads ext \<and> worker_script_found ext))"

definition pool_fails :: "'e externals \<Rightarrow> 'e PathFinder \<Rightarrow> bool" where
  "pool_fails ext pf \<longleftrightarrow>
     workerPool pf = PoolUndefined \<and> worker_enabled pf \<and> \<not> hasEdgeDataReducer pf \<and>
     worker_module_loads ext \<and> \<not> worker_script_found ext"


text \<open>
  A popped entry is stale when its cost exceeds the best-known cost recorded
  for its node.
\<close>

definition stale :: "real obj \<Rightarrow> key \<Rightarrow> real \<Rightarrow> bool" where
  "stale costs node c = (case map_of costs node of None \<Rightarrow> False | Some best \<Rightarrow> c > best)"

text \<open>
  The log of expansion calls after one more call for \<open>node\<close> at cost \<open>c\<close>
  (unchanged when no callback is configured), what that call throws, and the log
  a pass of a loop body ends with.
\<close>

definition calls_after :: "search_options \<Rightarrow> key \<Rightarrow> real \<Rightarrow> (key \<times> real) list \<Rightarrow> (key \<times> real) list" where
  "calls_after options node c calls =
     (case onNodeExpanded options of None \<Rightarrow> calls | Some f \<Rightarrow> calls @ [(node, c)])"

definition callback_throws :: "search_options \<Rightarrow> key \<Rightarrow> real \<Rightarrow> error option" where
  "callback_throws options node c =
     (case onNodeExpanded options of None \<Rightarrow> None | Some f \<Rightarrow> f (node, c))"

definition pass_calls :: "(search_result, 'v) step \<Rightarrow> ('v \<Rightarrow> (key \<times> real) list) \<Rightarrow> (key \<times> real) list" where
  "pass_calls s calls_of = (case s of Done (r, calls) \<Rightarrow> calls | Continue v \<Rightarrow> calls_of v)"

section \<open>An abstract search\<close>




text \<open>A walk from \<open>start\<close> along the keys \<open>ns\<close>, of weight \<open>wt\<close>.\<close>

definition walk :: "real obj obj \<Rightarrow> key \<Rightarrow> key list \<Rightarrow> real \<Rightarrow> bool" where
  "walk g start ns wt \<longleftrightarrow> walk_cost no_options g 0 [start] ns = Some wt"


definition positive_weights :: "real obj obj \<Rightarrow> bool" where
  "positive_weights g = list_all (\<lambda>(u, nb). list_all (\<lambda>(v, w). 0 < w) nb) g"


text \<open>
  A vertex is open at cost \<open>c\<close> when \<open>c\<close> is its recorded cost and the queue holds an
  entry for it at that cost, closed when it has a recorded cost and no such entry.
\<close>

definition open_at :: "real obj \<Rightarrow> AState list \<Rightarrow> key \<Rightarrow> real \<Rightarrow> bool" where
  "open_at cs q n c \<longleftrightarrow> map_of cs n = Some c \<and> (\<exists>est p. (c, est, p, n) \<in> set q)"

definition closed_at :: "real obj \<Rightarrow> AState list \<Rightarrow> key \<Rightarrow> real \<Rightarrow> bool" where
  "closed_at cs q n c \<longleftrightarrow> map_of cs n = Some c \<and> (\<forall>est p. (c, est, p, n) \<notin> set q)"


text \<open>
  The invariant of the loop. Every queue entry carries the estimate \<open>cost + h node\<close>
  and a cost no smaller than the recorded cost of its node; every recorded cost is the
  weight of a walk from the start to a vertex of the graph; the recorded cost of a
  closed vertex is a lower bound of every walk to it; no two entries have the same
  node and cost; every closed vertex is relaxed.
\<close>

definition entry_key :: "AState \<Rightarrow> key \<times> real" where
  "entry_key x = (snd (snd (snd x)), fst x)"













section \<open>Example networks\<close>

text \<open>
  A key function for the examples, given as a table (the default key of
  topology.ts formats the numbers of a position, which the model does not do).
\<close>

definition key_table :: "(position \<times> key) list" where
  "key_table =
     [(Position 0 0 [], ''0,0''), (Position 1 0 [], ''1,0''), (Position 0 1 [], ''0,1''),
      (Position 1 1 [], ''1,1''), (Position 2 0 [], ''2,0''), (Position 7 7 [], ''7,7'')]"

definition table_key :: "position \<Rightarrow> key" where
  "table_key c = (case map_of key_table c of None \<Rightarrow> ''elsewhere'' | Some k \<Rightarrow> k)"

text \<open>
  The network of the test "transition guard blocks reversing moves": the lines
  (0,0)-(1,0), (1,0)-(0,1) and (1,0)-(2,0), with weights 1, 3/2 and 1. Every
  vertex is an end or a fork, so the compacted graph is the raw graph and no
  search needs a phantom.
\<close>

definition fork_graph :: "unit PathFinderGraph" where
  "fork_graph =
     \<lparr> vertices =
         [(''0,0'', [(''1,0'', 1)]),
          (''1,0'', [(''0,0'', 1), (''0,1'', 3 / 2), (''2,0'', 1)]),
          (''0,1'', [(''1,0'', 3 / 2)]),
          (''2,0'', [(''1,0'', 1)])],
       edgeData = [],
       sourceCoordinates =
         [(''0,0'', Position 0 0 []), (''1,0'', Position 1 0 []),
          (''0,1'', Position 0 1 []), (''2,0'', Position 2 0 [])],
       compactedVertices =
         [(''0,0'', [(''1,0'', 1)]),
          (''1,0'', [(''0,0'', 1), (''0,1'', 3 / 2), (''2,0'', 1)]),
          (''0,1'', [(''1,0'', 3 / 2)]),
          (''2,0'', [(''1,0'', 1)])],
       compactedCoordinates =
         [(''0,0'', [(''1,0'', [Some (Position 0 0 [])])]),
          (''1,0'', [(''0,0'', [Some (Position 1 0 [])]), (''0,1'', [Some (Position 1 0 [])]),
                     (''2,0'', [Some (Position 1 0 [])])]),
          (''0,1'', [(''1,0'', [Some (Position 0 1 [])])]),
          (''2,0'', [(''1,0'', [Some (Position 2 0 [])])])],
       compactedEdges = Some [] \<rparr>"

definition no_phantom :: "unit phantom" where
  "no_phantom = \<lparr> edges = [], incomingEdges = [], ph_coordinates = [], incomingCoordinates = [],
                   reducedEdges = [] \<rparr>"

definition fork_externals :: "unit externals" where
  "fork_externals =
     \<lparr> compactNode = (\<lambda>n g. no_phantom), defaultKey = table_key,
       turf_distance = (\<lambda>a b. 0), worker_module_loads = True,
       worker_threads_available = True, worker_script_found = True \<rparr>"

definition fork_finder :: "unit PathFinder" where
  "fork_finder =
     \<lparr> graph = fork_graph, key_option = None, tolerance_option = Some 1,
       hasEdgeDataReducer = False, worker_enabled = False, workerPool = PoolUndefined \<rparr>"

text \<open>
  The network of the test "can find path (simple)": the lines (0,0)-(1,0) and
  (1,0)-(1,1) with weight 1 each, no edge-data reducer. The compacted graph has
  the two ends and the chain between them; (1,0) is interior to the chain, and
  \<open>l_phantom\<close> is what \<^verbatim>\<open>compactNode\<close> returns for it: an edge of weight 1 to
  and from each end.
\<close>

definition l_graph :: "unit PathFinderGraph" where
  "l_graph =
     \<lparr> vertices =
         [(''0,0'', [(''1,0'', 1)]), (''1,0'', [(''0,0'', 1), (''1,1'', 1)]),
          (''1,1'', [(''1,0'', 1)])],
       edgeData = [],
       sourceCoordinates =
         [(''0,0'', Position 0 0 []), (''1,0'', Position 1 0 []), (''1,1'', Position 1 1 [])],
       compactedVertices = [(''0,0'', [(''1,1'', 2)]), (''1,1'', [(''0,0'', 2)])],
       compactedCoordinates =
         [(''0,0'', [(''1,1'', [Some (Position 0 0 []), Some (Position 1 0 [])])]),
          (''1,1'', [(''0,0'', [Some (Position 1 1 []), Some (Position 1 0 [])])])],
       compactedEdges = Some [] \<rparr>"

definition l_phantom :: "unit phantom" where
  "l_phantom =
     \<lparr> edges = [(''0,0'', 1), (''1,1'', 1)],
       incomingEdges = [(''0,0'', 1), (''1,1'', 1)],
       ph_coordinates = [(''0,0'', [Some (Position 1 0 [])]), (''1,1'', [Some (Position 1 0 [])])],
       incomingCoordinates =
         [(''0,0'', [Some (Position 1 0 [])]), (''1,1'', [Some (Position 1 0 [])])],
       reducedEdges = [(''0,0'', None), (''1,1'', None)] \<rparr>"

definition l_externals :: "unit externals" where
  "l_externals =
     \<lparr> compactNode = (\<lambda>n g. l_phantom), defaultKey = table_key,
       turf_distance = (\<lambda>a b. 0), worker_module_loads = True,
       worker_threads_available = True, worker_script_found = True \<rparr>"

definition l_finder :: "unit PathFinder" where
  "l_finder =
     \<lparr> graph = l_graph, key_option = None, tolerance_option = Some 1,
       hasEdgeDataReducer = False, worker_enabled = False, workerPool = PoolUndefined \<rparr>"

text \<open>The graph of \<open>l_finder\<close> with the phantom of (1,0) in it.\<close>

definition l_graph_with_phantom :: "unit PathFinderGraph" where
  "l_graph_with_phantom =
     l_graph\<lparr>
       compactedVertices :=
         [(''0,0'', [(''1,1'', 2), (''1,0'', 1)]),
          (''1,1'', [(''0,0'', 2), (''1,0'', 1)]),
          (''1,0'', [(''0,0'', 1), (''1,1'', 1)])],
       compactedCoordinates :=
         [(''0,0'', [(''1,1'', [Some (Position 0 0 []), Some (Position 1 0 [])]),
                     (''1,0'', [Some (Position 0 0 [])])]),
          (''1,1'', [(''0,0'', [Some (Position 1 1 []), Some (Position 1 0 [])]),
                     (''1,0'', [Some (Position 1 1 [])])]),
          (''1,0'', [(''0,0'', [Some (Position 1 0 [])]), (''1,1'', [Some (Position 1 0 [])])])],
       compactedEdges := Some [(''0,0'', [(''1,0'', None)]), (''1,1'', [(''1,0'', None)])] \<rparr>"

text \<open>
  A road (0,0,0)-(1,0,0)-(2,0,0) and a bridge (0,0,5)-(1,0,5) above it, the keys
  carrying the elevation: the two-dimensional query (0,0) matches two vertices,
  (2,0) matches one, (7,7) none.
\<close>

definition bridge_graph :: "unit PathFinderGraph" where
  "bridge_graph =
     \<lparr> vertices =
         [(''0,0,0'', [(''1,0,0'', 1)]),
          (''1,0,0'', [(''0,0,0'', 1), (''2,0,0'', 1)]),
          (''2,0,0'', [(''1,0,0'', 1)]),
          (''0,0,5'', [(''1,0,5'', 1)]),
          (''1,0,5'', [(''0,0,5'', 1)])],
       edgeData = [],
       sourceCoordinates =
         [(''0,0,0'', Position 0 0 [0]), (''1,0,0'', Position 1 0 [0]),
          (''2,0,0'', Position 2 0 [0]),
          (''0,0,5'', Position 0 0 [5]), (''1,0,5'', Position 1 0 [5])],
       compactedVertices =
         [(''0,0,0'', [(''2,0,0'', 2)]), (''2,0,0'', [(''0,0,0'', 2)]),
          (''0,0,5'', [(''1,0,5'', 1)]), (''1,0,5'', [(''0,0,5'', 1)])],
       compactedCoordinates =
         [(''0,0,0'', [(''2,0,0'', [Some (Position 0 0 [0]), Some (Position 1 0 [0])])]),
          (''2,0,0'', [(''0,0,0'', [Some (Position 2 0 [0]), Some (Position 1 0 [0])])]),
          (''0,0,5'', [(''1,0,5'', [Some (Position 0 0 [5])])]),
          (''1,0,5'', [(''0,0,5'', [Some (Position 1 0 [5])])])],
       compactedEdges = Some [] \<rparr>"

definition bridge_finder :: "unit PathFinder" where
  "bridge_finder =
     \<lparr> graph = bridge_graph, key_option = None, tolerance_option = Some 1,
       hasEdgeDataReducer = False, worker_enabled = False, workerPool = PoolUndefined \<rparr>"

text \<open>Graphs for the searches alone.\<close>

definition stale_graph :: "real obj obj" where
  "stale_graph =
     [(''S'', [(''A'', 5), (''B'', 1)]), (''B'', [(''A'', 1)]), (''A'', [(''G'', 10)]), (''G'', [])]"

definition reward_graph :: "real obj obj" where
  "reward_graph =
     [(''S'', [(''A'', 1), (''B'', 2)]), (''A'', [(''G'', 10)]), (''B'', [(''A'', 1)]), (''G'', [])]"

text \<open>A bias that rewards the step from B to A with -10 and leaves the others alone.\<close>

definition rewarding_bias :: "bias_input \<Rightarrow> error + number" where
  "rewarding_bias inp =
     (case inp of (c, from_key, to_key, p) \<Rightarrow>
        if from_key = ''B'' \<and> to_key = ''A'' then Inr (Finite (- 10)) else Inr (Finite 0))"

definition log_options :: search_options where
  "log_options = no_options\<lparr> onNodeExpanded := Some (\<lambda>call. None) \<rparr>"



text \<open>
  A stand-in for the distance in kilometres: 100 per degree along each axis (a
  degree of longitude at the equator is about 111 km).
\<close>

definition stand_in_distance :: "position \<Rightarrow> position \<Rightarrow> real" where
  "stand_in_distance a b = 100 * (\<bar>lon a - lon b\<bar> + \<bar>lat a - lat b\<bar>)"


section \<open>Rounding\<close>

subsection \<open>Rounding to a Number\<close>

lemma round_even_error: "\<bar>of_int (round_even y) - y\<bar> \<le> 1 / 2"
  unfolding round_even_def Let_def by (auto simp: abs_if) linarith+

lemma round_even_of_int [simp]: "round_even (of_int k) = k"
  by (simp add: round_even_def)

lemma two_powi_pos: "0 < (2::real) powi n"
  by (simp add: zero_less_power_int)

lemma two_powi_mono: "m \<le> n \<Longrightarrow> (2::real) powi m \<le> 2 powi n"
  by (rule power_int_increasing) simp_all

lemma two_powi_less_exp: "(2::real) powi m < 2 powi n \<Longrightarrow> m < n"
proof (rule ccontr)
  assume a: "(2::real) powi m < 2 powi n" and "\<not> m < n"
  then have "n \<le> m" by simp
  from two_powi_mono [OF this] a show False by simp
qed

lemma two_powi_add: "(2::real) powi (m + n) = 2 powi m * 2 powi n"
  by (rule power_int_add) simp

lemma bitlen_bounds:
  assumes "0 < n"
  shows "(2::real) powi (bitlen n - 1) \<le> of_int n" and "of_int n < (2::real) powi bitlen n"
proof -
  define k where "k = floorlog 2 (nat n)"
  from assms have pos: "0 < nat n" by simp
  from floorlog_bounds [OF pos, of 2] have b: "2 ^ (k - 1) \<le> nat n" "nat n < 2 ^ k"
    by (simp_all add: k_def)
  from pos have "k \<noteq> 0" by (simp add: k_def floorlog_eq_zero_iff)
  then have k: "0 < k" by simp
  have bl: "bitlen n = int k" by (simp add: bitlen_def k_def)
  from k have "bitlen n - 1 = int (k - 1)" by (simp add: bl)
  then have "(2::real) powi (bitlen n - 1) = 2 ^ (k - 1)" by (simp only: power_int_of_nat)
  also have "\<dots> \<le> real (nat n)" using b(1) by (metis of_nat_le_iff of_nat_numeral of_nat_power)
  also have "\<dots> = of_int n" using assms by simp
  finally show "(2::real) powi (bitlen n - 1) \<le> of_int n" .
  have "real_of_int n = real (nat n)" using assms by simp
  also have "\<dots> < 2 ^ k" using b(2) by (metis of_nat_less_iff of_nat_numeral of_nat_power)
  also have "\<dots> = 2 powi bitlen n" by (simp only: bl power_int_of_nat)
  finally show "of_int n < (2::real) powi bitlen n" .
qed

lemma binade_bounds:
  assumes "x \<noteq> 0"
  shows "2 powi binade x \<le> \<bar>x\<bar>" and "\<bar>x\<bar> < 2 powi (binade x + 1)"
proof -
  have "2 powi binade x \<le> \<bar>x\<bar> \<and> \<bar>x\<bar> < 2 powi (binade x + 1)"
  proof (cases "1 \<le> \<bar>x\<bar>")
    case True
    define n where "n = \<lfloor>\<bar>x\<bar>\<rfloor>"
    from True have n: "0 < n" by (simp add: n_def)
    have b: "binade x = bitlen n - 1" using True by (simp add: binade_def n_def)
    have "of_int n \<le> \<bar>x\<bar>" by (simp add: n_def)
    with bitlen_bounds(1) [OF n] have lo: "2 powi binade x \<le> \<bar>x\<bar>" by (simp add: b)
    have "(2::real) powi bitlen n = 2 ^ nat (bitlen n)"
      using bitlen_nonneg [of n] by (simp add: power_int_def)
    with bitlen_bounds(2) [OF n] have "real_of_int n < real_of_int (2 ^ nat (bitlen n))" by simp
    then have "n < 2 ^ nat (bitlen n)" by (simp only: of_int_less_iff)
    then have "n + 1 \<le> 2 ^ nat (bitlen n)" by simp
    then have "real_of_int (n + 1) \<le> 2 ^ nat (bitlen n)" by (simp only: of_int_le_numeral_power_cancel_iff)
    moreover have "\<bar>x\<bar> < of_int (n + 1)" unfolding n_def by linarith
    ultimately have "\<bar>x\<bar> < 2 ^ nat (bitlen n)" by (rule less_le_trans [rotated])
    also have "\<dots> = 2 powi (binade x + 1)"
      using bitlen_nonneg [of n] by (simp add: b power_int_def)
    finally show ?thesis using lo by simp
  next
    case False
    with assms have small: "0 < \<bar>x\<bar>" "\<bar>x\<bar> < 1" by simp_all
    define y where "y = 1 / \<bar>x\<bar>"
    have y: "1 < y" using small by (simp add: y_def)
    define m where "m = \<lceil>y\<rceil>"
    have m: "y \<le> of_int m" "of_int m - 1 < y" unfolding m_def by linarith+
    from y m(1) have "1 < real_of_int m" by linarith
    then have m1: "0 < m - 1" by simp
    have b: "binade x = - bitlen (m - 1)" using False by (simp add: binade_def m_def y_def)
    define j where "j = bitlen (m - 1)"
    have j0: "0 \<le> j" by (simp add: j_def bitlen_nonneg)
    have pj: "(2::real) powi j = 2 ^ nat j" using j0 by (simp add: power_int_def)
    from bitlen_bounds(2) [OF m1] have "real_of_int (m - 1) < real_of_int (2 ^ nat j)"
      by (simp add: j_def [symmetric] pj)
    then have "m - 1 < 2 ^ nat j" by (simp only: of_int_less_iff)
    then have "m \<le> 2 ^ nat j" by simp
    then have "real_of_int m \<le> 2 ^ nat j" by simp
    with m(1) have "y \<le> 2 ^ nat j" by (rule order_trans)
    then have "y \<le> 2 powi j" by (simp only: pj)
    then have "1 \<le> 2 powi j * \<bar>x\<bar>" using small by (simp add: y_def field_simps)
    then have "2 powi (- j) * 1 \<le> 2 powi (- j) * (2 powi j * \<bar>x\<bar>)"
      using two_powi_pos [of "- j"] by (intro mult_left_mono) simp_all
    moreover have "(2::real) powi (- j) * 2 powi j = 1"
      using two_powi_add [of "- j" j] by simp
    ultimately have lo: "2 powi (- j) \<le> \<bar>x\<bar>" by (simp add: mult.assoc [symmetric])
    from bitlen_bounds(1) [OF m1] m(2) have "2 powi (j - 1) < y" by (simp add: j_def)
    then have lt: "2 powi (j - 1) * \<bar>x\<bar> < 1" using small by (simp add: y_def field_simps)
    have one: "(2::real) powi (- j + 1) * 2 powi (j - 1) = 1"
      using two_powi_add [of "- j + 1" "j - 1"] by simp
    have "\<bar>x\<bar> = 2 powi (- j + 1) * (2 powi (j - 1) * \<bar>x\<bar>)"
      by (simp only: mult.assoc [symmetric] one mult_1)
    also have "\<dots> < 2 powi (- j + 1) * 1"
      using two_powi_pos [of "- j + 1"] lt by (rule mult_strict_left_mono [rotated])
    finally have hi: "\<bar>x\<bar> < 2 powi (- j + 1)" by simp
    from lo hi show ?thesis by (simp add: b j_def)
  qed
  then show "2 powi binade x \<le> \<bar>x\<bar>" and "\<bar>x\<bar> < 2 powi (binade x + 1)" by simp_all
qed

lemma binade_eq:
  assumes "2 powi e \<le> \<bar>x\<bar>" and "\<bar>x\<bar> < 2 powi (e + 1)"
  shows "binade x = e"
proof -
  from assms(1) two_powi_pos [of e] have "0 < \<bar>x\<bar>" by (rule less_le_trans [rotated])
  then have nz: "x \<noteq> 0" by simp
  note b = binade_bounds [OF nz]
  from b(1) assms(2) have "(2::real) powi binade x < 2 powi (e + 1)" by (rule le_less_trans)
  from two_powi_less_exp [OF this] have "binade x \<le> e" by simp
  moreover from assms(1) b(2) have "(2::real) powi e < 2 powi (binade x + 1)" by (rule le_less_trans)
  from two_powi_less_exp [OF this] have "e \<le> binade x" by simp
  ultimately show ?thesis by simp
qed

lemma number_value_zero: "number_value 0 = 0"
  by (simp add: number_value_def)

lemma ulp_exponent_normal:
  assumes "2 powi e \<le> \<bar>x\<bar>" and "\<bar>x\<bar> < 2 powi (e + 1)" and "- 1022 \<le> e"
  shows "ulp_exponent x = e - 52"
  using binade_eq [OF assms(1,2)] assms(3) by (simp add: ulp_exponent_def)

lemma ulp_exponent_subnormal:
  assumes "x \<noteq> 0" and "\<bar>x\<bar> < least_normal"
  shows "ulp_exponent x = - 1074"
proof -
  from binade_bounds(1) [OF assms(1)] assms(2)
  have "(2::real) powi binade x < 2 powi (- 1022)"
    unfolding least_normal_def by (rule le_less_trans)
  from two_powi_less_exp [OF this] show ?thesis
    unfolding ulp_exponent_def by linarith
qed

lemma number_value_unfold:
  assumes "x \<noteq> 0" and "ulp_exponent x = u"
  shows "number_value x = of_int (round_even (x / 2 powi u)) * 2 powi u"
  using assms unfolding number_value_def by (simp only: if_False)

text \<open>A multiple of the unit in the last place is a Number.\<close>

lemma number_value_exact:
  assumes "ulp_exponent x = u" and "x = of_int m * 2 powi u"
  shows "number_value x = x"
proof (cases "x = 0")
  case True
  then show ?thesis by (simp add: number_value_zero)
next
  case False
  from two_powi_pos [of u] have "(2::real) powi u \<noteq> 0" by (rule less_imp_neq [THEN not_sym])
  then have "of_int m * 2 powi u / 2 powi u = (of_int m :: real)"
    by (rule nonzero_mult_div_cancel_right)
  then have "x / 2 powi u = of_int m" by (simp only: assms(2) [symmetric])
  then have "of_int (round_even (x / 2 powi u)) * 2 powi u = x"
    by (simp only: round_even_of_int assms(2) [symmetric])
  with number_value_unfold [OF False assms(1)] show ?thesis by (simp only:)
qed

text \<open>Every value of \<open>number_value\<close> is a multiple of the least positive Number.\<close>

lemma number_value_grid: "\<exists>m. number_value x = of_int m * least_number"
proof (cases "x = 0")
  case True
  then have "number_value x = of_int 0 * least_number" by (simp add: number_value_zero)
  then show ?thesis ..
next
  case False
  define u where "u = ulp_exponent x"
  have "- 1074 \<le> u" by (simp add: u_def ulp_exponent_def)
  then obtain n :: nat where n: "u = - 1074 + int n"
    by (metis add.commute diff_add_cancel diff_ge_0_iff_ge nonneg_int_cases)
  have "(2::real) powi u = least_number * 2 powi (int n)"
    unfolding n two_powi_add least_number_def ..
  also have "\<dots> = least_number * 2 ^ n" by (simp only: power_int_of_nat)
  finally have u: "(2::real) powi u = 2 ^ n * least_number" by (simp only: mult.commute)
  have "number_value x = of_int (round_even (x / 2 powi u)) * (2 ^ n * least_number)"
    using number_value_unfold [OF False u_def [symmetric]] by (simp only: u)
  also have "\<dots> = of_int (round_even (x / 2 powi u) * 2 ^ n) * least_number"
    by (simp only: of_int_mult of_int_power of_int_numeral mult.assoc)
  finally show ?thesis ..
qed

text \<open>In the normal range the relative error of rounding is at most \<open>2 ^ -53\<close>.\<close>

lemma number_value_error:
  assumes "least_normal \<le> \<bar>x\<bar>"
  shows "\<bar>number_value x - x\<bar> \<le> \<bar>x\<bar> / 2 ^ 53"
proof -
  from assms two_powi_pos [of "- 1022"] have "0 < \<bar>x\<bar>"
    unfolding least_normal_def by (rule less_le_trans [rotated])
  then have nz: "x \<noteq> 0" by simp
  define e where "e = binade x"
  note b = binade_bounds [OF nz, folded e_def]
  from assms b(2) have "(2::real) powi (- 1022) < 2 powi (e + 1)"
    unfolding least_normal_def by (rule le_less_trans)
  from two_powi_less_exp [OF this] have e: "- 1022 \<le> e" by simp
  define s :: real where "s = 2 powi (e - 52)"
  have s: "0 < s" by (simp add: s_def two_powi_pos)
  from number_value_unfold [OF nz ulp_exponent_normal [OF b e]]
  have nv: "number_value x = of_int (round_even (x / s)) * s"
    by (simp only: s_def)
  have "number_value x - x = (of_int (round_even (x / s)) - x / s) * s"
    using s by (simp add: nv field_simps)
  then have "\<bar>number_value x - x\<bar> = \<bar>of_int (round_even (x / s)) - x / s\<bar> * s"
    using s by (simp add: abs_mult)
  also have "\<dots> \<le> 1 / 2 * s"
    using round_even_error [of "x / s"] s by (intro mult_right_mono) simp_all
  also have "1 / 2 * s = 2 powi e / 2 ^ 53"
  proof -
    have "(2::real) powi e = 2 powi ((e - 52) + 52)" by simp
    also have "\<dots> = s * 2 powi 52" unfolding two_powi_add s_def ..
    also have "\<dots> = s * 2 ^ 52" by (simp only: power_int_numeral)
    finally show ?thesis by simp
  qed
  also have "\<dots> \<le> \<bar>x\<bar> / 2 ^ 53"
    using b(1) by (intro divide_right_mono) simp_all
  finally show ?thesis .
qed

text \<open>Integers below \<open>2 ^ 53\<close> in magnitude are Numbers.\<close>

lemma number_value_of_int:
  assumes "\<bar>k\<bar> < 2 ^ 53"
  shows "number_value (of_int k) = of_int k"
proof (cases "k = 0")
  case True
  then show ?thesis by (simp add: number_value_zero)
next
  case False
  define x :: real where "x = of_int k"
  have nz: "x \<noteq> 0" using False by (simp add: x_def)
  define e where "e = binade x"
  note b = binade_bounds [OF nz, folded e_def]
  have "1 \<le> \<bar>x\<bar>" using False by (simp add: x_def)
  with b(2) have "(2::real) powi 0 < 2 powi (e + 1)" by simp
  from two_powi_less_exp [OF this] have e0: "0 \<le> e" by simp
  have "\<bar>x\<bar> < 2 ^ 53"
    using assms by (simp add: x_def)
  then have "\<bar>x\<bar> < 2 powi 53" by (simp only: power_int_numeral)
  with b(1) have "(2::real) powi e < 2 powi 53" by (rule le_less_trans)
  from two_powi_less_exp [OF this] have e52: "e \<le> 52" by simp
  then obtain n :: nat where n: "52 - e = int n"
    by (metis diff_ge_0_iff_ge nonneg_int_cases)
  have "(2::real) powi (e - 52) * 2 powi (int n) = 2 powi ((e - 52) + int n)"
    by (simp only: two_powi_add)
  also have "\<dots> = 1"
  proof -
    from n have "e - 52 + int n = 0" by linarith
    then show ?thesis by simp
  qed
  finally have sc: "(2::real) powi (e - 52) * 2 ^ n = 1" by (simp only: power_int_of_nat)
  have "of_int (k * 2 ^ n) * 2 powi (e - 52) = x * (2 powi (e - 52) * 2 ^ n)"
    by (simp add: x_def)
  then have "x = of_int (k * 2 ^ n) * 2 powi (e - 52)" by (simp only: sc mult_1_right)
  from number_value_exact [OF ulp_exponent_normal [OF b] this] e0 show ?thesis by (simp add: x_def)
qed

lemma number_value_numeral: "(numeral n :: int) < 2 ^ 53 \<Longrightarrow> number_value (numeral n) = numeral n"
  using number_value_of_int [of "numeral n"] by simp

lemma number_value_one: "number_value 1 = 1"
  using number_value_of_int [of 1] by simp

lemma number_value_dyadic:
  assumes m: "\<bar>m\<bar> < 2 ^ 53" and n: "n \<le> 1022"
  shows "number_value (of_int m / 2 ^ n) = of_int m / 2 ^ n"
proof (cases "m = 0")
  case True
  then show ?thesis by (simp add: number_value_zero)
next
  case False
  define x :: real where "x = of_int m / 2 ^ n"
  have nz: "x \<noteq> 0" using False by (simp add: x_def)
  define e where "e = binade x"
  note b = binade_bounds [OF nz, folded e_def]
  have inv: "(2::real) powi (- int n) * 2 ^ n = 1"
    by (simp add: power_int_minus)
  have xm: "x = of_int m * 2 powi (- int n)"
    by (simp add: x_def power_int_minus field_simps)
  have "1 \<le> \<bar>real_of_int m\<bar>" using False by simp
  then have "1 * 2 powi (- int n) \<le> \<bar>real_of_int m\<bar> * 2 powi (- int n)"
    using two_powi_pos [of "- int n"] by (intro mult_right_mono) simp_all
  then have "2 powi (- int n) \<le> \<bar>x\<bar>"
    using two_powi_pos [of "- int n"] by (simp add: xm abs_mult)
  from this b(2) have "(2::real) powi (- int n) < 2 powi (e + 1)" by (rule le_less_trans)
  from two_powi_less_exp [OF this] have lo: "- int n \<le> e" by simp
  with n have e: "- 1022 \<le> e" by simp
  have "\<bar>real_of_int m\<bar> < 2 ^ 53" using m by (metis of_int_abs of_int_less_numeral_power_cancel_iff)
  then have "\<bar>real_of_int m\<bar> < 2 powi 53" by (simp only: power_int_numeral)
  then have "\<bar>real_of_int m\<bar> * 2 powi (- int n) < 2 powi 53 * 2 powi (- int n)"
    using two_powi_pos [of "- int n"] by (intro mult_strict_right_mono)
  then have "\<bar>x\<bar> < 2 powi (53 + - int n)"
    using two_powi_pos [of "- int n"] by (simp only: two_powi_add) (simp add: xm abs_mult)
  from b(1) this have "(2::real) powi e < 2 powi (53 + - int n)" by (rule le_less_trans)
  from two_powi_less_exp [OF this] have hi: "e - 52 \<le> - int n" by simp
  then obtain j :: nat where j: "- int n - (e - 52) = int j"
    by (metis diff_ge_0_iff_ge nonneg_int_cases)
  have "(2::real) powi (- int n) = 2 powi ((e - 52) + int j)"
  proof -
    from j have "- int n = (e - 52) + int j" by linarith
    then show ?thesis by (simp only:)
  qed
  also have "\<dots> = 2 powi (e - 52) * 2 ^ j" by (simp only: two_powi_add power_int_of_nat)
  finally have "x = of_int (m * 2 ^ j) * 2 powi (e - 52)"
    by (simp add: xm)
  from number_value_exact [OF ulp_exponent_normal [OF b e] this] show ?thesis by (simp only: x_def)
qed

lemma number_value_eval:
  assumes "2 powi e \<le> \<bar>x\<bar>" and "\<bar>x\<bar> < 2 powi (e + 1)" and "- 1022 \<le> e"
  shows "number_value x = of_int (round_even (x / 2 powi (e - 52))) * 2 powi (e - 52)"
proof -
  from assms(1) two_powi_pos [of e] have "0 < \<bar>x\<bar>" by (rule less_le_trans [rotated])
  then have "x \<noteq> 0" by simp
  from number_value_unfold [OF this ulp_exponent_normal [OF assms]] show ?thesis .
qed

subsection \<open>Rounding a rounded coordinate\<close>

lemma least_normal_le_half: "least_normal \<le> 1 / 2"
proof -
  have "(2::real) powi (- 1022) \<le> 2 powi (- 1)" by (rule two_powi_mono) simp
  also have "(2::real) powi (- 1) = 1 / 2" by (simp add: power_int_minus)
  finally show ?thesis unfolding least_normal_def .
qed

text \<open>
  The product of an integer and a Number \<open>t\<close> is rounded with a relative error of at
  most \<open>2 ^ -53\<close>: below the normal range it is a multiple of the least Number, and exact.
\<close>

lemma product_error:
  assumes num: "number_value t = t"
  shows "\<bar>number_value (of_int K * t) - of_int K * t\<bar> \<le> \<bar>of_int K * t\<bar> / 2 ^ 53"
proof (cases "least_normal \<le> \<bar>of_int K * t\<bar>")
  case True
  then show ?thesis by (rule number_value_error)
next
  case False
  then have small: "\<bar>of_int K * t\<bar> < least_normal" by simp
  from number_value_grid [of t] num obtain m where m: "t = of_int m * least_number" by auto
  have y: "of_int K * t = of_int (K * m) * 2 powi (- 1074)"
    unfolding least_number_def [symmetric] by (subst m) simp
  have "number_value (of_int K * t) = of_int K * t"
  proof (cases "of_int K * t = 0")
    case True
    then show ?thesis by (simp only: number_value_zero)
  next
    case nz: False
    from number_value_exact [OF ulp_exponent_subnormal [OF nz small] y] show ?thesis .
  qed
  then show ?thesis by simp
qed

lemma rounding_stable:
  assumes t: "0 < t" and num: "number_value t = t" and K: "\<bar>K\<bar> < 2 ^ 51"
  shows "math_round (number_value (number_value (of_int K * t) / t)) = of_int K"
proof (cases "K = 0")
  case True
  then show ?thesis by (simp add: number_value_zero math_round_def)
next
  case False
  define a :: real where "a = \<bar>of_int K\<bar>"
  have a1: "1 \<le> a" using False by (simp add: a_def)
  have "\<bar>K\<bar> \<le> 2 ^ 51 - 1" using K by simp
  then have "real_of_int \<bar>K\<bar> \<le> real_of_int (2 ^ 51 - 1)" by (simp only: of_int_le_iff)
  then have a2: "a \<le> 2 ^ 51 - 1" by (simp add: a_def)
  define p where "p = number_value (of_int K * t)"
  define y where "y = p / t"
  have e1: "\<bar>y - of_int K\<bar> \<le> a / 2 ^ 53"
  proof -
    have "y - of_int K = (p - of_int K * t) / t" using t by (simp add: y_def field_simps)
    then have "\<bar>y - of_int K\<bar> = \<bar>p - of_int K * t\<bar> / t" using t by (simp add: abs_divide)
    also have "\<dots> \<le> (\<bar>of_int K * t\<bar> / 2 ^ 53) / t"
      using product_error [OF num, of K] t unfolding p_def by (intro divide_right_mono) simp_all
    also have "\<dots> = a / 2 ^ 53" using t by (simp add: a_def abs_mult)
    finally show ?thesis .
  qed
  have ya: "\<bar>y\<bar> \<le> a + a / 2 ^ 53" and yb: "a - a / 2 ^ 53 \<le> \<bar>y\<bar>"
    using e1 unfolding a_def by linarith+
  have "1 / 2 \<le> a - a / 2 ^ 53" using a1 by simp
  with yb least_normal_le_half have "least_normal \<le> \<bar>y\<bar>" by linarith
  from number_value_error [OF this] have e2: "\<bar>number_value y - y\<bar> \<le> \<bar>y\<bar> / 2 ^ 53" .
  have "\<bar>y\<bar> / 2 ^ 53 \<le> (a + a / 2 ^ 53) / 2 ^ 53"
    using ya by (intro divide_right_mono) simp_all
  with e1 e2 have "\<bar>number_value y - of_int K\<bar> \<le> a / 2 ^ 53 + (a + a / 2 ^ 53) / 2 ^ 53"
    by linarith
  also have "\<dots> < 1 / 2" using a2 by simp
  finally have "\<bar>number_value y - of_int K\<bar> < 1 / 2" .
  then have "\<lfloor>number_value y + 1 / 2\<rfloor> = K" by linarith
  then show ?thesis by (simp add: math_round_def y_def p_def)
qed

text \<open>
  C9, for quotients below \<open>2 ^ 51\<close>: for every position \<open>c\<close> (with two components, or
  more) and every tolerance \<open>t\<close>, a Number with \<open>0 < t \<le> 2 ^ 972\<close>, such that the
  integers \<^verbatim>\<open>Math.round(c[0] / t)\<close> and \<^verbatim>\<open>Math.round(c[1] / t)\<close> are below \<open>2 ^ 51\<close>
  in magnitude, rounding a rounded position changes nothing:
  \<open>roundCoord (roundCoord c t) t = roundCoord c t\<close>. (With these bounds every
  intermediate result is below \<open>2 ^ 1023\<close>, a finite Number.)
\<close>

theorem roundCoord_idempotent:
  assumes "0 < t" and "t \<le> 2 ^ 972" and "number_value t = t"
    and "\<bar>math_round (number_value (lon c / t))\<bar> < 2 ^ 51"
    and "\<bar>math_round (number_value (lat c / t))\<bar> < 2 ^ 51"
  shows "roundCoord (roundCoord c t) t = roundCoord c t"
proof -
  have stable: "number_value (math_round (number_value (number_value (math_round (number_value (x / t)) * t) / t)) * t)
      = number_value (math_round (number_value (x / t)) * t)"
    if "\<bar>math_round (number_value (x / t))\<bar> < 2 ^ 51" for x
  proof -
    define K where "K = \<lfloor>number_value (x / t) + 1 / 2\<rfloor>"
    have mr: "math_round (number_value (x / t)) = of_int K"
      by (simp add: math_round_def K_def)
    from that have "\<bar>real_of_int K\<bar> < 2 ^ 51" by (simp only: mr)
    then have "real_of_int \<bar>K\<bar> < real_of_int (2 ^ 51)" by simp
    then have "\<bar>K\<bar> < 2 ^ 51" by (simp only: of_int_less_iff)
    from rounding_stable [OF assms(1,3) this] show ?thesis by (simp only: mr)
  qed
  from stable [OF assms(4)] stable [OF assms(5)] show ?thesis
    by (simp add: roundCoord_def)
qed

theorem roundCoord_idempotent_witness:
  "(0::real) < 1 / 4 \<and> (1 / 4 :: real) \<le> 2 ^ 972 \<and> number_value (1 / 4) = 1 / 4 \<and>
   \<bar>math_round (number_value (lon (Position (5 / 16) (- (19 / 16)) [7]) / (1 / 4)))\<bar> < 2 ^ 51 \<and>
   \<bar>math_round (number_value (lat (Position (5 / 16) (- (19 / 16)) [7]) / (1 / 4)))\<bar> < 2 ^ 51 \<and>
   roundCoord (roundCoord (Position (5 / 16) (- (19 / 16)) [7]) (1 / 4)) (1 / 4)
     = roundCoord (Position (5 / 16) (- (19 / 16)) [7]) (1 / 4) \<and>
   roundCoord (Position (5 / 16) (- (19 / 16)) [7]) (1 / 4) = Position (1 / 4) (- (5 / 4)) [7]"
proof -
  have t: "number_value (1 / 4) = 1 / 4"
    using number_value_dyadic [of 1 2] by simp
  have q1: "number_value (5 / 4) = 5 / 4"
    using number_value_dyadic [of 5 2] by simp
  have q2: "number_value (- (19 / 4)) = - (19 / 4)"
    using number_value_dyadic [of "- 19" 2] by simp
  have p2: "number_value (- (5 / 4)) = - (5 / 4)"
    using number_value_dyadic [of "- 5" 2] by simp
  have k1: "\<bar>math_round (number_value (lon (Position (5 / 16) (- (19 / 16)) [7]) / (1 / 4)))\<bar> < 2 ^ 51"
    by (simp add: q1 math_round_def)
  have k2: "\<bar>math_round (number_value (lat (Position (5 / 16) (- (19 / 16)) [7]) / (1 / 4)))\<bar> < 2 ^ 51"
    by (simp add: q2 math_round_def)
  have val: "roundCoord (Position (5 / 16) (- (19 / 16)) [7]) (1 / 4) = Position (1 / 4) (- (5 / 4)) [7]"
    by (simp add: roundCoord_def q1 q2 math_round_def t p2)
  have pos: "(0::real) < 1 / 4" and le: "(1 / 4 :: real) \<le> 2 ^ 972" by simp_all
  from roundCoord_idempotent [OF pos le t k1 k2] pos le t k1 k2 val show ?thesis
    by (intro conjI)
qed

text \<open>
  The claim as it is written fails where the quotient needs more than 51 bits: with the
  tolerance \<open>3 * 2 ^ -49\<close> (about \<open>5.3 * 10 ^ -15\<close>) the coordinate
  \<open>13510798882111478 * 2 ^ -49\<close> (about 24) is rounded to \<open>13510798882111480 * 2 ^ -49\<close>,
  and that one to \<open>13510798882111482 * 2 ^ -49\<close>. Both the tolerance and the coordinate
  are Numbers.
\<close>

theorem roundCoord_twice_differs:
  "number_value (3 / 562949953421312) = 3 / 562949953421312 \<and>
   number_value (13510798882111478 / 562949953421312) = 13510798882111478 / 562949953421312 \<and>
   roundCoord (Position (13510798882111478 / 562949953421312) 0 []) (3 / 562949953421312)
     = Position (13510798882111480 / 562949953421312) 0 [] \<and>
   roundCoord (Position (13510798882111480 / 562949953421312) 0 []) (3 / 562949953421312)
     = Position (13510798882111482 / 562949953421312) 0 []"
proof -
  have t: "number_value (3 / 562949953421312) = 3 / 562949953421312"
    using number_value_dyadic [of 3 49] by simp
  have c: "number_value (13510798882111478 / 562949953421312) = 13510798882111478 / 562949953421312"
    using number_value_dyadic [of 6755399441055739 48] by simp
  have q1: "number_value (13510798882111478 / 3) = 9007199254740985 / 2"
    using number_value_eval [of 51 "13510798882111478 / 3"]
    by (simp add: round_even_def Let_def power_int_minus)
  have p1: "number_value (13510798882111479 / 562949953421312) = 13510798882111480 / 562949953421312"
    using number_value_eval [of 4 "13510798882111479 / 562949953421312"]
    by (simp add: round_even_def Let_def power_int_minus)
  have q2: "number_value (13510798882111480 / 3) = 9007199254740987 / 2"
    using number_value_eval [of 51 "13510798882111480 / 3"]
    by (simp add: round_even_def Let_def power_int_minus)
  have p2: "number_value (6755399441055741 / 281474976710656) = 6755399441055741 / 281474976710656"
    using number_value_dyadic [of 6755399441055741 48] by simp
  have r1: "roundCoord (Position (13510798882111478 / 562949953421312) 0 []) (3 / 562949953421312)
     = Position (13510798882111480 / 562949953421312) 0 []"
    by (simp add: roundCoord_def math_round_def number_value_zero q1 p1)
  have r2: "roundCoord (Position (13510798882111480 / 562949953421312) 0 []) (3 / 562949953421312)
     = Position (13510798882111482 / 562949953421312) 0 []"
    by (simp add: roundCoord_def math_round_def number_value_zero q2 p2)
  from t c r1 r2 show ?thesis by (intro conjI)
qed

section \<open>Loops\<close>

lemma loop_invariant_aux:
  assumes step: "\<And>s s'. I s \<Longrightarrow> body s = Continue s' \<Longrightarrow> I s'"
  shows "loop b s = Some r \<Longrightarrow> b = body \<longrightarrow> I s \<longrightarrow> (\<exists>t. I t \<and> body t = Done r)"
proof (rule loop.raw_induct [where P = "\<lambda>b s r. b = body \<longrightarrow> I s \<longrightarrow> (\<exists>t. I t \<and> body t = Done r)"])
  fix loop' :: "('a \<Rightarrow> ('b, 'a) step) \<Rightarrow> 'a \<Rightarrow> 'b option" and b s r
  assume IH: "\<And>b s r. loop' b s = Some r \<Longrightarrow> b = body \<longrightarrow> I s \<longrightarrow> (\<exists>t. I t \<and> body t = Done r)"
    and eq: "(case b s of Done r \<Rightarrow> Some r | Continue s' \<Rightarrow> loop' b s') = Some r"
  show "b = body \<longrightarrow> I s \<longrightarrow> (\<exists>t. I t \<and> body t = Done r)"
  proof (intro impI)
    assume b: "b = body" and I: "I s"
    show "\<exists>t. I t \<and> body t = Done r"
    proof (cases "body s")
      case (Done r')
      with eq b have "r' = r" by simp
      with Done I show ?thesis by blast
    next
      case (Continue s')
      with eq b have "loop' body s' = Some r" by simp
      moreover have "I s'" using step [OF I Continue] .
      ultimately show ?thesis using IH by blast
    qed
  qed
qed

lemma loop_invariant:
  assumes "loop body s = Some r" and "I s"
    and "\<And>s s'. I s \<Longrightarrow> body s = Continue s' \<Longrightarrow> I s'"
  shows "\<exists>t. I t \<and> body t = Done r"
  using loop_invariant_aux [of I body body s r] assms by blast


section \<open>The queue and the loop bodies\<close>

lemma queue_min_in: "queue_min prio b ys \<in> set (b # ys)"
  by (induction ys arbitrary: b) auto

lemma queue_min_le: "y \<in> set (b # ys) \<Longrightarrow> prio (queue_min prio b ys) \<le> prio y"
proof (induction ys arbitrary: b y)
  case Nil
  then show ?case by simp
next
  case (Cons a ys)
  have le_b: "prio (queue_min prio (if prio a < prio b then a else b) ys) \<le> prio (if prio a < prio b then a else b)"
    using Cons.IH [of "if prio a < prio b then a else b" "if prio a < prio b then a else b"] by simp
  show ?case
  proof (cases "y \<in> set ys")
    case True
    then show ?thesis using Cons.IH [of y "if prio a < prio b then a else b"] by simp
  next
    case False
    with Cons.prems have "y = b \<or> y = a" by auto
    then show ?thesis using le_b by (auto split: if_splits)
  qed
qed

lemma queue_pop_Some:
  assumes "queue_pop prio q = Some (m, q')"
  shows "m \<in> set q" and "q' = remove1 m q" and "\<And>y. y \<in> set q \<Longrightarrow> prio m \<le> prio y"
proof -
  obtain x xs where q: "q = x # xs"
    using assms by (cases q) auto
  with assms have m: "m = queue_min prio x xs" and q': "q' = remove1 m (x # xs)"
    by (auto simp: Let_def)
  show "m \<in> set q" using queue_min_in [of prio x xs] m q by simp
  show "q' = remove1 m q" using q' q by simp
  show "\<And>y. y \<in> set q \<Longrightarrow> prio m \<le> prio y"
    using queue_min_le [of _ x xs prio] m q by simp
qed


lemma walk_cost_snoc:
  "walk_cost options g c p (ns @ [n]) =
     (case walk_cost options g c p ns of
        None \<Rightarrow> None
      | Some c' \<Rightarrow> edge_cost options g c' (p @ ns) n)"
proof (induction ns arbitrary: c p)
  case Nil
  then show ?case by (simp split: option.splits)
next
  case (Cons a ns)
  show ?case
    by (cases "edge_cost options g c p a") (simp_all add: Cons.IH cong: option.case_cong)
qed

text \<open>What a pass of relaxations can add to the queue.\<close>

lemma dijkstra_relax_queue:
  assumes "forEach (dijkstra_relax options (c, p, node) nb) ks (cs, q) = Inr (cs', q')"
    and "x \<in> set q'"
  shows "x \<in> set q \<or>
         (\<exists>n w b. map_of nb n = Some w \<and> bias_of options (c, node, n, p) = Inr (Finite b) \<and>
                  x = (c + w + b, p @ [n], n))"
  using assms
proof (induction ks arbitrary: cs q)
  case Nil
  then show ?case by simp
next
  case (Cons k ks)
  from Cons.prems(1) obtain cs1 q1 where
    r: "dijkstra_relax options (c, p, node) nb k (cs, q) = Inr (cs1, q1)"
    and rest: "forEach (dijkstra_relax options (c, p, node) nb) ks (cs1, q1) = Inr (cs', q')"
    by (auto split: sum.splits)
  from Cons.IH [OF rest Cons.prems(2)] show ?case
  proof
    assume "x \<in> set q1"
    with r show ?thesis
      by (auto simp: dijkstra_relax_def queue_push_def Let_def
               split: option.splits sum.splits number.splits if_splits)
  qed blast
qed

lemma astar_relax_queue:
  assumes "forEach (astar_relax d e options (c, est, p, node) nb) ks (cs, q) = Inr (cs', q')"
    and "x \<in> set q'"
  shows "x \<in> set q \<or>
         (\<exists>n w b. map_of nb n = Some w \<and> bias_of options (c, node, n, p) = Inr (Finite b) \<and>
                  x = (c + w + b, c + w + b + heuristic d n e (coordinates options), p @ [n], n))"
  using assms
proof (induction ks arbitrary: cs q)
  case Nil
  then show ?case by simp
next
  case (Cons k ks)
  from Cons.prems(1) obtain cs1 q1 where
    r: "astar_relax d e options (c, est, p, node) nb k (cs, q) = Inr (cs1, q1)"
    and rest: "forEach (astar_relax d e options (c, est, p, node) nb) ks (cs1, q1) = Inr (cs', q')"
    by (auto split: sum.splits)
  from Cons.IH [OF rest Cons.prems(2)] show ?case
  proof
    assume "x \<in> set q1"
    with r show ?thesis
      by (auto simp: astar_relax_def queue_push_def Let_def
               split: option.splits sum.splits number.splits if_splits)
  qed blast
qed

lemma costed_step:
  assumes "costed options g start c p node" and "map_of g node = Some nb" and "map_of nb n = Some w"
    and "bias_of options (c, node, n, p) = Inr (Finite b)"
  shows "costed options g start (c + w + b) (p @ [n]) n"
proof -
  from assms(1) obtain ns where p: "p = start # ns" and l: "last p = node"
    and wc: "walk_cost options g 0 [start] ns = Some c"
    unfolding costed_def by blast
  have "walk_cost options g 0 [start] (ns @ [n]) = Some (c + w + b)"
    using wc assms(2-4) p l by (simp add: walk_cost_snoc edge_cost_def)
  then show ?thesis
    unfolding costed_def using p by auto
qed

lemma dijkstra_body_Continue:
  assumes "dijkstra_body g e options v = Continue v'"
  obtains c p node q nb cs' q' where
    "queue_pop fst (d_queue v) = Some ((c, p, node), q)"
    "node \<noteq> e"
    "map_of g node = Some nb"
    "forEach (dijkstra_relax options (c, p, node) nb) (obj_keys nb) (d_costs v, q) = Inr (cs', q')"
    "d_costs v' = cs'" "d_queue v' = q'"
proof (cases "queue_pop fst (d_queue v)")
  case None
  with assms show ?thesis by (simp add: dijkstra_body_def)
next
  case (Some a)
  then obtain c p node q where pop: "queue_pop fst (d_queue v) = Some ((c, p, node), q)"
    by (cases a) auto
  obtain er calls where ne: "notify_expanded options node c (d_calls v) = (er, calls)"
    by (cases "notify_expanded options node c (d_calls v)")
  from assms pop ne have er: "er = None"
    by (cases er) (simp_all add: dijkstra_body_def)
  from assms pop ne er have node: "node \<noteq> e"
    by (auto simp: dijkstra_body_def)
  from assms pop ne er node obtain nb where nb: "map_of g node = Some nb"
    by (cases "map_of g node") (simp_all add: dijkstra_body_def)
  from assms pop ne er node nb obtain cs' q' where
    fe: "forEach (dijkstra_relax options (c, p, node) nb) (obj_keys nb) (d_costs v, q) = Inr (cs', q')"
    by (cases "forEach (dijkstra_relax options (c, p, node) nb) (obj_keys nb) (d_costs v, q)")
       (auto simp: dijkstra_body_def)
  from assms pop ne er node nb fe have "d_costs v' = cs'" "d_queue v' = q'"
    by (auto simp: dijkstra_body_def)
  with pop node nb fe show ?thesis by (rule that)
qed

lemma dijkstra_body_Done:
  assumes "dijkstra_body g e options v = Done (Inr (Some (w, p)), calls)"
  obtains q where "queue_pop fst (d_queue v) = Some ((w, p, e), q)"
proof (cases "queue_pop fst (d_queue v)")
  case None
  with assms show ?thesis by (simp add: dijkstra_body_def)
next
  case (Some a)
  then obtain c p' node q where pop: "queue_pop fst (d_queue v) = Some ((c, p', node), q)"
    by (cases a) auto
  obtain er calls' where ne: "notify_expanded options node c (d_calls v) = (er, calls')"
    by (cases "notify_expanded options node c (d_calls v)")
  from assms pop ne have er: "er = None"
    by (cases er) (simp_all add: dijkstra_body_def)
  have "node = e \<and> c = w \<and> p' = p"
  proof (cases "node = e")
    case True
    with assms pop ne er show ?thesis by (simp add: dijkstra_body_def)
  next
    case False
    with assms pop ne er show ?thesis
      by (cases "map_of g node")
         (auto simp: dijkstra_body_def split: sum.splits)
  qed
  with pop show ?thesis by (auto intro: that)
qed

lemma astar_body_Continue:
  assumes "astar_body d g e options v = Continue v'"
  obtains (stale) c est p node q best where
    "queue_pop (\<lambda>s. fst (snd s)) (a_queue v) = Some ((c, est, p, node), q)"
    "map_of (a_costs v) node = Some best" "c > best"
    "v' = v\<lparr> a_queue := q \<rparr>"
  | (expand) c est p node q nb cs' q' where
    "queue_pop (\<lambda>s. fst (snd s)) (a_queue v) = Some ((c, est, p, node), q)"
    "\<not> (case map_of (a_costs v) node of None \<Rightarrow> False | Some best \<Rightarrow> c > best)"
    "node \<noteq> e"
    "map_of g node = Some nb"
    "forEach (astar_relax d e options (c, est, p, node) nb) (obj_keys nb) (a_costs v, q) = Inr (cs', q')"
    "a_costs v' = cs'" "a_queue v' = q'"
proof (cases "queue_pop (\<lambda>s. fst (snd s)) (a_queue v)")
  case None
  with assms show ?thesis by (simp add: astar_body_def)
next
  case (Some a)
  then obtain c est p node q where
    pop: "queue_pop (\<lambda>s. fst (snd s)) (a_queue v) = Some ((c, est, p, node), q)"
    by (cases a) auto
  show ?thesis
  proof (cases "case map_of (a_costs v) node of None \<Rightarrow> False | Some best \<Rightarrow> c > best")
    case True
    then obtain best where "map_of (a_costs v) node = Some best" "c > best"
      by (auto split: option.splits)
    moreover from assms pop True have "v' = v\<lparr> a_queue := q \<rparr>"
      by (simp add: astar_body_def)
    ultimately show ?thesis using pop by (auto intro: stale)
  next
    case False
    obtain er calls where ne: "notify_expanded options node c (a_calls v) = (er, calls)"
      by (cases "notify_expanded options node c (a_calls v)")
    from assms pop ne False have er: "er = None"
      by (cases er) (simp_all add: astar_body_def)
    from assms pop ne er False have node: "node \<noteq> e"
      by (auto simp: astar_body_def)
    from assms pop ne er node False obtain nb where nb: "map_of g node = Some nb"
      by (cases "map_of g node") (simp_all add: astar_body_def)
    from assms pop ne er node nb False obtain cs' q' where
      fe: "forEach (astar_relax d e options (c, est, p, node) nb) (obj_keys nb) (a_costs v, q) = Inr (cs', q')"
      by (cases "forEach (astar_relax d e options (c, est, p, node) nb) (obj_keys nb) (a_costs v, q)")
         (auto simp: astar_body_def)
    from assms pop ne er node nb fe False have "a_costs v' = cs'" "a_queue v' = q'"
      by (auto simp: astar_body_def)
    with pop False node nb fe show ?thesis by (rule expand)
  qed
qed

lemma astar_body_Done:
  assumes "astar_body d g e options v = Done (Inr (Some (w, p)), calls)"
  obtains est q where "queue_pop (\<lambda>s. fst (snd s)) (a_queue v) = Some ((w, est, p, e), q)"
    "\<not> (case map_of (a_costs v) e of None \<Rightarrow> False | Some best \<Rightarrow> w > best)"
proof (cases "queue_pop (\<lambda>s. fst (snd s)) (a_queue v)")
  case None
  with assms show ?thesis by (simp add: astar_body_def)
next
  case (Some a)
  then obtain c est p' node q where
    pop: "queue_pop (\<lambda>s. fst (snd s)) (a_queue v) = Some ((c, est, p', node), q)"
    by (cases a) auto
  have fresh: "\<not> (case map_of (a_costs v) node of None \<Rightarrow> False | Some best \<Rightarrow> c > best)"
    using assms pop by (auto simp: astar_body_def split: if_splits)
  obtain er calls' where ne: "notify_expanded options node c (a_calls v) = (er, calls')"
    by (cases "notify_expanded options node c (a_calls v)")
  from assms pop ne fresh have er: "er = None"
    by (cases er) (simp_all add: astar_body_def)
  have "node = e \<and> c = w \<and> p' = p"
  proof (cases "node = e")
    case True
    with assms pop ne er fresh show ?thesis by (simp add: astar_body_def)
  next
    case False
    with assms pop ne er fresh show ?thesis
      by (cases "map_of g node")
         (auto simp: astar_body_def split: sum.splits)
  qed
  with pop fresh show ?thesis by (auto intro: that)
qed

lemma dijkstra_costed:
  assumes "findPathDijkstra g start e options = Some (Inr (Some (w, p)), calls)"
  shows "costed options g start w p e"
proof -
  let ?I = "\<lambda>v. \<forall>x \<in> set (d_queue v). costed options g start (fst x) (fst (snd x)) (snd (snd x))"
  have init: "?I \<lparr> d_costs = [(start, 0)], d_queue = [(0, [start], start)], d_calls = [] \<rparr>"
    by (simp add: costed_def)
  have step: "?I v'" if I: "?I v" and b: "dijkstra_body g e options v = Continue v'" for v v'
  proof -
    from b obtain c p node q nb cs' q' where
      pop: "queue_pop fst (d_queue v) = Some ((c, p, node), q)"
      and nb: "map_of g node = Some nb"
      and fe: "forEach (dijkstra_relax options (c, p, node) nb) (obj_keys nb) (d_costs v, q) = Inr (cs', q')"
      and v': "d_queue v' = q'"
      by (rule dijkstra_body_Continue)
    from queue_pop_Some(1,2) [OF pop] have mem: "(c, p, node) \<in> set (d_queue v)"
      and q: "set q \<subseteq> set (d_queue v)"
      using set_remove1_subset [of "(c, p, node)" "d_queue v"] by auto
    from I mem have cst: "costed options g start c p node" by force
    show ?thesis
      unfolding v'
    proof
      fix x assume x: "x \<in> set q'"
      from dijkstra_relax_queue [OF fe x]
      show "costed options g start (fst x) (fst (snd x)) (snd (snd x))"
      proof
        assume "x \<in> set q"
        with q I show ?thesis by blast
      next
        assume "\<exists>n w b. map_of nb n = Some w \<and> bias_of options (c, node, n, p) = Inr (Finite b) \<and>
                  x = (c + w + b, p @ [n], n)"
        then show ?thesis using costed_step [OF cst nb] by auto
      qed
    qed
  qed
  have "\<exists>t. ?I t \<and> dijkstra_body g e options t = Done (Inr (Some (w, p)), calls)"
    using assms [unfolded findPathDijkstra_def] init step by (rule loop_invariant)
  then obtain t where It: "?I t" and d: "dijkstra_body g e options t = Done (Inr (Some (w, p)), calls)"
    by (elim exE conjE)
  from d obtain q where pop: "queue_pop fst (d_queue t) = Some ((w, p, e), q)"
    by (rule dijkstra_body_Done)
  from queue_pop_Some(1) [OF pop] have "(w, p, e) \<in> set (d_queue t)" .
  with It have "costed options g start (fst (w, p, e)) (fst (snd (w, p, e))) (snd (snd (w, p, e)))"
    by (rule bspec)
  then show ?thesis by simp
qed

lemma astar_costed:
  assumes "findPathAStar d g start e options = Some (Inr (Some (w, p)), calls)"
  shows "costed options g start w p e"
proof -
  let ?I = "\<lambda>v. \<forall>x \<in> set (a_queue v).
               costed options g start (fst x) (fst (snd (snd x))) (snd (snd (snd x)))"
  have init: "?I \<lparr> a_costs = [(start, 0)],
                   a_queue = [(0, heuristic d start e (coordinates options), [start], start)],
                   a_calls = [] \<rparr>"
    by (simp add: costed_def)
  have step: "?I v'" if I: "?I v" and b: "astar_body d g e options v = Continue v'" for v v'
    using b
  proof (cases rule: astar_body_Continue)
    case (stale c est p node q best)
    from queue_pop_Some(2) [OF stale(1)] have "set q \<subseteq> set (a_queue v)"
      using set_remove1_subset [of "(c, est, p, node)" "a_queue v"] by auto
    with I stale(4) show ?thesis by auto
  next
    case (expand c est p node q nb cs' q')
    from queue_pop_Some(1,2) [OF expand(1)] have mem: "(c, est, p, node) \<in> set (a_queue v)"
      and q: "set q \<subseteq> set (a_queue v)"
      using set_remove1_subset [of "(c, est, p, node)" "a_queue v"] by auto
    from I mem have cst: "costed options g start c p node" by force
    show ?thesis
      unfolding expand(7)
    proof
      fix x assume x: "x \<in> set q'"
      from astar_relax_queue [OF expand(5) x]
      show "costed options g start (fst x) (fst (snd (snd x))) (snd (snd (snd x)))"
      proof
        assume "x \<in> set q"
        with q I show ?thesis by blast
      next
        assume "\<exists>n w b. map_of nb n = Some w \<and> bias_of options (c, node, n, p) = Inr (Finite b) \<and>
                  x = (c + w + b, c + w + b + heuristic d n e (coordinates options), p @ [n], n)"
        then show ?thesis using costed_step [OF cst expand(4)] by auto
      qed
    qed
  qed
  have "\<exists>t. ?I t \<and> astar_body d g e options t = Done (Inr (Some (w, p)), calls)"
    using assms [unfolded findPathAStar_def] init step by (rule loop_invariant)
  then obtain t where It: "?I t" and dn: "astar_body d g e options t = Done (Inr (Some (w, p)), calls)"
    by (elim exE conjE)
  from dn obtain est q where pop: "queue_pop (\<lambda>s. fst (snd s)) (a_queue t) = Some ((w, est, p, e), q)"
    by (rule astar_body_Done)
  from queue_pop_Some(1) [OF pop] have "(w, est, p, e) \<in> set (a_queue t)" .
  with It have "costed options g start (fst (w, est, p, e)) (fst (snd (snd (w, est, p, e))))
                  (snd (snd (snd (w, est, p, e))))"
    by (rule bspec)
  then show ?thesis by simp
qed

lemma walk_cost_unbiased:
  assumes "directionBias options = None"
  shows "walk_cost options g c p ns = map_option ((+) c) (path_weight g (last p # ns))"
proof (induction ns arbitrary: c p)
  case Nil
  then show ?case by simp
next
  case (Cons n ns)
  show ?case
  proof (cases "edge_cost options g c p n")
    case None
    then show ?thesis
      using assms by (auto simp: edge_cost_def bias_of_def split: option.splits)
  next
    case (Some c')
    then obtain nb w where "map_of g (last p) = Some nb" "map_of nb n = Some w" "c' = c + w"
      using assms by (auto simp: edge_cost_def bias_of_def split: option.splits)
    then show ?thesis
      using Some Cons.IH [of c' "p @ [n]"]
      by (cases "path_weight g (n # ns)") (simp_all add: algebra_simps)
  qed
qed

section \<open>The facade's search and its result\<close>

lemma reconstruct_weight:
  "reconstruct hr g finish (w, p) = Inr (Some (Path cs w' ed)) \<Longrightarrow> w' = w"
  by (auto simp: reconstruct_def split: sum.splits if_splits)

lemma findPathFromVertexKeys_path:
  assumes "findPathFromVertexKeys ext pf start finish so = Some (Inr (Some (Path cs w ed)), pf')"
  obtains p calls where
    "run_search ext (phantom_graph ext pf start finish) start finish so = Some (Inr (Some (w, p)), calls)"
    "reconstruct (hasEdgeDataReducer pf) (phantom_graph ext pf start finish) finish (w, p)
       = Inr (Some (Path cs w ed))"
proof -
  let ?cn = "compactNode ext" and ?hr = "hasEdgeDataReducer pf"
  have verts: "\<not> (map_of (vertices (graph pf)) start = None \<or> map_of (vertices (graph pf)) finish = None)"
    using assms by (auto simp: findPathFromVertexKeys_def split: if_splits)
  obtain r1 g1 where c1: "createPhantom ?cn ?hr start (graph pf) = (r1, g1)"
    by (cases "createPhantom ?cn ?hr start (graph pf)")
  obtain phantomStart where r1: "r1 = Inr phantomStart"
    using assms verts c1 by (cases r1) (auto simp: findPathFromVertexKeys_def)
  obtain r2 g2 where c2: "createPhantom ?cn ?hr finish g1 = (r2, g2)"
    by (cases "createPhantom ?cn ?hr finish g1")
  obtain phantomEnd where r2: "r2 = Inr phantomEnd"
    using assms verts c1 r1 c2 by (cases r2) (auto simp: findPathFromVertexKeys_def)
  have G: "phantom_graph ext pf start finish = g2"
    by (simp add: phantom_graph_def c1 c2)
  have unfolded: "findPathFromVertexKeys ext pf start finish so =
      (case run_search ext g2 start finish so of
         None \<Rightarrow> None
       | Some (outcome, calls) \<Rightarrow>
           (let tried = (case outcome of
                           Inl e \<Rightarrow> Inl e
                         | Inr None \<Rightarrow> Inr None
                         | Inr (Some pathResult) \<Rightarrow> reconstruct ?hr g2 finish pathResult)
            in (case removePhantom ?hr phantomStart g2 of
                  (Some e, g3) \<Rightarrow> Some (Inl e, pf\<lparr> graph := g3 \<rparr>)
                | (None, g3) \<Rightarrow>
                    (case removePhantom ?hr phantomEnd g3 of
                       (Some e, g4) \<Rightarrow> Some (Inl e, pf\<lparr> graph := g4 \<rparr>)
                     | (None, g4) \<Rightarrow> Some (tried, pf\<lparr> graph := g4 \<rparr>)))))"
  proof -
    from verts obtain vs vf where "map_of (vertices (graph pf)) start = Some vs"
      "map_of (vertices (graph pf)) finish = Some vf"
      by auto
    then show ?thesis
      by (simp add: findPathFromVertexKeys_def c1 r1 c2 r2 run_search_def)
  qed
  obtain outcome calls where rs: "run_search ext g2 start finish so = Some (outcome, calls)"
    using assms unfolding unfolded by (cases "run_search ext g2 start finish so") auto
  obtain e3 g3 where rm1: "removePhantom ?hr phantomStart g2 = (e3, g3)"
    by (cases "removePhantom ?hr phantomStart g2")
  have e3: "e3 = None"
    using assms unfolding unfolded rs by (cases e3) (simp_all add: rm1 Let_def)
  obtain e4 g4 where rm2: "removePhantom ?hr phantomEnd g3 = (e4, g4)"
    by (cases "removePhantom ?hr phantomEnd g3")
  have e4: "e4 = None"
    using assms unfolding unfolded rs by (cases e4) (simp_all add: rm1 e3 rm2 Let_def)
  have tried: "(case outcome of
                  Inl e \<Rightarrow> Inl e
                | Inr None \<Rightarrow> Inr None
                | Inr (Some pathResult) \<Rightarrow> reconstruct ?hr g2 finish pathResult)
               = Inr (Some (Path cs w ed))"
    using assms unfolding unfolded rs by (simp add: rm1 e3 rm2 e4 Let_def)
  then obtain w' p where outcome: "outcome = Inr (Some (w', p))"
    and rec: "reconstruct ?hr g2 finish (w', p) = Inr (Some (Path cs w ed))"
    by (cases outcome) (auto split: option.splits)
  from reconstruct_weight [OF rec] have "w' = w" by simp
  with rs outcome rec G show ?thesis by (auto intro: that)
qed

lemma bias_of_coordinates [simp]: "bias_of (options\<lparr> coordinates := x \<rparr>) = bias_of options"
  by (rule ext) (simp add: bias_of_def)

lemma edge_cost_coordinates [simp]:
  "edge_cost (options\<lparr> coordinates := x \<rparr>) = edge_cost options"
  by (intro ext) (simp add: edge_cost_def cong: option.case_cong)

lemma walk_cost_coordinates [simp]:
  "walk_cost (options\<lparr> coordinates := x \<rparr>) g c p ns = walk_cost options g c p ns"
  by (induction ns arbitrary: c p) (simp_all cong: option.case_cong)

lemma run_search_costed:
  assumes "run_search ext g start finish so = Some (Inr (Some (w, p)), calls)"
  shows "costed (sharedOptions g finish so) (compactedVertices g) start w p finish"
proof (cases "algorithm so = Some AStar")
  case True
  with assms have "costed ((sharedOptions g finish so)\<lparr> coordinates := Some (sourceCoordinates g) \<rparr>)
                     (compactedVertices g) start w p finish"
    by (auto simp: run_search_def intro: astar_costed)
  then show ?thesis by (simp add: costed_def)
next
  case False
  with assms show ?thesis
    by (auto simp: run_search_def intro: dijkstra_costed)
qed

section \<open>What phantom injection stores\<close>

lemma createPhantom_incoming_source:
  "createPhantom_incoming ph n k g = (r, g') \<Longrightarrow> sourceCoordinates g' = sourceCoordinates g"
  by (auto simp: createPhantom_incoming_def Let_def split: option.splits if_splits)

lemma createPhantom_incoming_registers:
  assumes "createPhantom_incoming ph n k g = (None, g')" and "map_of (incomingEdges ph) k = Some w"
  shows "registered ph n (sourceCoordinates g) g' k"
  using assms
  by (auto simp: createPhantom_incoming_def registered_def Let_def update_conv'
           split: option.splits if_splits)

lemma createPhantom_incoming_keeps:
  assumes "createPhantom_incoming ph n k g = (None, g')" and "registered ph n (sourceCoordinates g) g k'"
  shows "registered ph n (sourceCoordinates g) g' k'"
proof (cases "k' = k")
  case True
  show ?thesis
  proof (cases "map_of (incomingEdges ph) k")
    case None
    with assms show ?thesis by (simp add: createPhantom_incoming_def)
  next
    case (Some w)
    from createPhantom_incoming_registers [OF assms(1) Some] True show ?thesis by simp
  qed
next
  case False
  with assms show ?thesis
    by (auto simp: createPhantom_incoming_def registered_def Let_def update_conv'
             split: option.splits if_splits)
qed

lemma forEach_st_source:
  "forEach_st (createPhantom_incoming ph n) ks g = (r, g') \<Longrightarrow> sourceCoordinates g' = sourceCoordinates g"
proof (induction ks arbitrary: g)
  case Nil
  then show ?case by simp
next
  case (Cons k ks)
  obtain r1 g1 where s: "createPhantom_incoming ph n k g = (r1, g1)"
    by (cases "createPhantom_incoming ph n k g")
  show ?case
  proof (cases r1)
    case None
    with Cons.prems s have "forEach_st (createPhantom_incoming ph n) ks g1 = (r, g')" by simp
    from Cons.IH [OF this] createPhantom_incoming_source [OF s] show ?thesis by simp
  next
    case (Some e)
    with Cons.prems s have "g' = g1" by simp
    with createPhantom_incoming_source [OF s] show ?thesis by simp
  qed
qed

lemma forEach_st_keeps:
  assumes "forEach_st (createPhantom_incoming ph n) ks g = (None, g')"
    and "registered ph n (sourceCoordinates g) g k'"
  shows "registered ph n (sourceCoordinates g) g' k'"
  using assms
proof (induction ks arbitrary: g)
  case Nil
  then show ?case by simp
next
  case (Cons k ks)
  obtain r1 g1 where s: "createPhantom_incoming ph n k g = (r1, g1)"
    by (cases "createPhantom_incoming ph n k g")
  with Cons.prems(1) have r1: "r1 = None" by (cases r1) simp_all
  with Cons.prems(1) s have rest: "forEach_st (createPhantom_incoming ph n) ks g1 = (None, g')" by simp
  have src: "sourceCoordinates g1 = sourceCoordinates g"
    using createPhantom_incoming_source [OF s] .
  from createPhantom_incoming_keeps [OF s [unfolded r1] Cons.prems(2)]
  have "registered ph n (sourceCoordinates g1) g1 k'" by (simp add: src)
  from Cons.IH [OF rest this] show ?case by (simp add: src)
qed

lemma forEach_st_registers:
  assumes "forEach_st (createPhantom_incoming ph n) ks g = (None, g')"
    and "k' \<in> set ks" and "map_of (incomingEdges ph) k' = Some w"
  shows "registered ph n (sourceCoordinates g) g' k'"
  using assms
proof (induction ks arbitrary: g)
  case Nil
  then show ?case by simp
next
  case (Cons k ks)
  obtain r1 g1 where s: "createPhantom_incoming ph n k g = (r1, g1)"
    by (cases "createPhantom_incoming ph n k g")
  with Cons.prems(1) have r1: "r1 = None" by (cases r1) simp_all
  with Cons.prems(1) s have rest: "forEach_st (createPhantom_incoming ph n) ks g1 = (None, g')" by simp
  have src: "sourceCoordinates g1 = sourceCoordinates g"
    using createPhantom_incoming_source [OF s] .
  show ?case
  proof (cases "k' = k")
    case True
    from createPhantom_incoming_registers [OF s [unfolded r1]] Cons.prems(3) True
    have "registered ph n (sourceCoordinates g1) g1 k'" by (simp add: src)
    from forEach_st_keeps [OF rest this] show ?thesis by (simp add: src)
  next
    case False
    with Cons.prems(2) have "k' \<in> set ks" by simp
    from Cons.IH [OF rest this Cons.prems(3)] show ?thesis by (simp add: src)
  qed
qed

section \<open>Evaluating the model\<close>

lemmas search_eval =
  loop.simps dijkstra_body_def dijkstra_relax_def astar_body_def astar_relax_def
  findPathDijkstra_def findPathAStar_def notify_expanded_def bias_of_def queue_push_def
  obj_keys_def heuristic_def no_options_def

lemmas facade_eval =
  findPath_def findPathFromVertexKeys_def createPhantom_def createPhantom_incoming_def
  removePhantom_def reconstruct_def sharedOptions_def buildTraversalContext_def
  resolveVertexKey_def key_of_def tolerance_of_def roundCoord_def math_round_def orElse_def
  vector_def resolveCompactedCoordinate_def default_searchOptions_def obj_keys_def Let_def
  number_value_zero number_value_one number_value_numeral

lemmas fork_eval =
  fork_graph_def fork_externals_def fork_finder_def no_phantom_def table_key_def key_table_def

lemmas l_eval =
  l_graph_def l_externals_def l_finder_def l_phantom_def table_key_def key_table_def
  l_graph_with_phantom_def

lemmas bridge_eval = bridge_graph_def bridge_finder_def fork_externals_def no_phantom_def
  table_key_def key_table_def

lemmas resolve_eval = resolve_def matching_keys_def resolveVertexKey_def key_of_def tolerance_of_def
  roundCoord_def math_round_def Let_def number_value_zero number_value_one number_value_numeral

section \<open>Phantom vertices after a search\<close>

text \<open>
  C1 (the code falls short of it): on the two-segment network without an
  edge-data reducer, a search from the interior vertex (1,0) to the end (1,1)
  returns its path, and afterwards \<^verbatim>\<open>compactedEdges\<close>, empty before the call,
  holds an entry for the phantom key "1,0" under each of its two neighbours.
  \<^verbatim>\<open>_createPhantom\<close> writes \<^verbatim>\<open>compactedEdges[neighbor][n]\<close> whenever
  \<^verbatim>\<open>compactedEdges\<close> exists; \<^verbatim>\<open>_removePhantom\<close> deletes it only when a
  reducer is configured.
\<close>

theorem phantom_entries_left_in_compactedEdges:
  "findPath l_externals l_finder (Position 1 0 []) (Position 1 1 []) default_searchOptions =
     Some (Inr (Some (Path [Some (Position 1 0 []), Some (Position 1 1 [])] 1 None)),
           l_finder\<lparr> graph := l_graph\<lparr> compactedEdges :=
             Some [(''0,0'', [(''1,0'', None)]), (''1,1'', [(''1,0'', None)])] \<rparr> \<rparr>)
   \<and> compactedEdges l_graph = Some []"
  by (simp add: facade_eval search_eval l_eval)

section \<open>The transition guard\<close>

text \<open>
  C2 (the code falls short of it): on the network of the repository's own test,
  a guard that answers \<^verbatim>\<open>false\<close> for every transition, and a guard that
  throws on every transition, both leave the search from (0,0) to (0,1)
  untouched, with Dijkstra and with A*: the path through (1,0) is returned. The
  facade puts the wrapped guard into the options under \<^verbatim>\<open>transitionGuard\<close>,
  dijkstra.ts reads \<^verbatim>\<open>isTurnAllowed\<close> and a-star.ts reads neither.
\<close>

theorem transitionGuard_is_never_called:
  "findPath fork_externals fork_finder (Position 0 0 []) (Position 0 1 [])
     (default_searchOptions\<lparr> user_transitionGuard := Some (\<lambda>context. Inr (JSBoolean False)) \<rparr>)
   = Some (Inr (Some (Path [Some (Position 0 0 []), Some (Position 1 0 []), Some (Position 0 1 [])]
                        (5 / 2) None)), fork_finder)
   \<and>
   findPath fork_externals fork_finder (Position 0 0 []) (Position 0 1 [])
     (default_searchOptions\<lparr> user_transitionGuard := Some (\<lambda>context. Inr (JSBoolean False)),
                             algorithm := Some AStar \<rparr>)
   = Some (Inr (Some (Path [Some (Position 0 0 []), Some (Position 1 0 []), Some (Position 0 1 [])]
                        (5 / 2) None)), fork_finder)
   \<and>
   findPath fork_externals fork_finder (Position 0 0 []) (Position 0 1 [])
     (default_searchOptions\<lparr> user_transitionGuard :=
        Some (\<lambda>context. Inl (Thrown ''reverse moves are not allowed'')) \<rparr>)
   = Some (Inr (Some (Path [Some (Position 0 0 []), Some (Position 1 0 []), Some (Position 0 1 [])]
                        (5 / 2) None)), fork_finder)"
  by (simp add: facade_eval search_eval fork_eval)

section \<open>Stored coordinate lists\<close>

text \<open>
  C5, as the code has it: for every edge from a neighbour \<open>u\<close> to the phantom
  \<open>n\<close> that phantom injection registers, the stored list is the coordinate of
  \<open>u\<close> followed by \<^verbatim>\<open>phantom.incomingCoordinates[u]\<close> without its last
  element. So the list starts with the coordinate of \<open>u\<close>; and the
  reconstruction of a path over such an edge is that list with the source
  coordinate of the end vertex appended after it.
\<close>

theorem phantom_incoming_edge_geometry:
  assumes "createPhantom cn hr n g = (Inr (Some n'), g')"
    and "map_of (incomingEdges (cn n g)) neighbor = Some w"
  shows "\<exists>m ic. map_of (compactedCoordinates g') neighbor = Some m \<and>
                map_of (incomingCoordinates (cn n g)) neighbor = Some ic \<and>
                map_of m n = Some (map_of (sourceCoordinates g) neighbor # butlast ic) \<and>
                path_coordinates g' [neighbor, n] = Inr (map_of (sourceCoordinates g) neighbor # butlast ic) \<and>
                reconstruct False g' n (w, [neighbor, n]) =
                  Inr (Some (Path ((map_of (sourceCoordinates g) neighbor # butlast ic)
                                     @ [map_of (sourceCoordinates g) n]) w None))"
proof -
  let ?ph = "cn n g"
  from assms(1) have fresh: "map_of (compactedVertices g) n = None"
    by (auto simp: createPhantom_def split: if_splits)
  define g1 where "g1 = g\<lparr> compactedVertices := AList.update n (edges ?ph) (compactedVertices g),
                           compactedCoordinates := AList.update n (ph_coordinates ?ph) (compactedCoordinates g) \<rparr>"
  define g2 where "g2 = (if hr then (case compactedEdges g1 of None \<Rightarrow> g1
                          | Some ce \<Rightarrow> g1\<lparr> compactedEdges := Some (AList.update n (reducedEdges ?ph) ce) \<rparr>)
                        else g1)"
  have g2: "sourceCoordinates g2 = sourceCoordinates g"
    by (simp add: g2_def g1_def split: option.splits)
  have fe: "forEach_st (createPhantom_incoming ?ph n) (obj_keys (incomingEdges ?ph)) g2 = (None, g')"
    using assms(1) fresh
    by (auto simp: createPhantom_def Let_def g1_def g2_def split: option.splits if_splits prod.splits)
  have mem: "neighbor \<in> set (obj_keys (incomingEdges ?ph))"
    using assms(2) by (auto simp: obj_keys_def dest!: map_of_SomeD intro: rev_image_eqI)
  from forEach_st_registers [OF fe mem assms(2)] obtain m ic where
    m: "map_of (compactedCoordinates g') neighbor = Some m"
    and ic: "map_of (incomingCoordinates ?ph) neighbor = Some ic"
    and mn: "map_of m n = Some (map_of (sourceCoordinates g) neighbor # butlast ic)"
    unfolding registered_def g2 by blast
  have src: "sourceCoordinates g' = sourceCoordinates g"
    using forEach_st_source [OF fe] g2 by simp
  have pc: "path_coordinates g' [neighbor, n] = Inr (map_of (sourceCoordinates g) neighbor # butlast ic)"
    by (simp add: m mn)
  have rc: "reconstruct False g' n (w, [neighbor, n]) =
              Inr (Some (Path ((map_of (sourceCoordinates g) neighbor # butlast ic)
                                 @ [map_of (sourceCoordinates g) n]) w None))"
    by (simp add: reconstruct_def pc src del: path_coordinates.simps)
  from m ic mn pc rc show ?thesis by blast
qed

theorem phantom_incoming_edge_geometry_witness:
  "createPhantom (compactNode l_externals) False ''1,0'' l_graph
     = (Inr (Some ''1,0''), l_graph_with_phantom) \<and>
   map_of (incomingEdges (compactNode l_externals ''1,0'' l_graph)) ''0,0'' = Some 1 \<and>
   path_coordinates l_graph_with_phantom [''0,0'', ''1,0''] = Inr [Some (Position 0 0 [])] \<and>
   reconstruct False l_graph_with_phantom ''1,0'' (1, [''0,0'', ''1,0''])
     = Inr (Some (Path [Some (Position 0 0 []), Some (Position 1 0 [])] 1 None))"
proof -
  have cp: "createPhantom (compactNode l_externals) False ''1,0'' l_graph
              = (Inr (Some ''1,0''), l_graph_with_phantom)"
    by (simp add: facade_eval l_eval)
  have ie: "map_of (incomingEdges (compactNode l_externals ''1,0'' l_graph)) ''0,0'' = Some 1"
    by (simp add: l_eval)
  from phantom_incoming_edge_geometry [OF cp ie] obtain m ic where
    ic: "map_of (incomingCoordinates (compactNode l_externals ''1,0'' l_graph)) ''0,0'' = Some ic"
    and pc: "path_coordinates l_graph_with_phantom [''0,0'', ''1,0'']
               = Inr (map_of (sourceCoordinates l_graph) ''0,0'' # butlast ic)"
    and rc: "reconstruct False l_graph_with_phantom ''1,0'' (1, [''0,0'', ''1,0''])
               = Inr (Some (Path ((map_of (sourceCoordinates l_graph) ''0,0'' # butlast ic)
                                    @ [map_of (sourceCoordinates l_graph) ''1,0'']) 1 None))"
    by blast
  from ic have "ic = [Some (Position 1 0 [])]"
    by (simp add: l_eval)
  with pc rc cp ie show ?thesis
    by (simp add: l_eval del: path_coordinates.simps)
qed

text \<open>
  The claim as it is written fails on the two-segment network: the list stored
  for the edge from (0,0) to the phantom (1,0) is the single coordinate of (0,0),
  the vertex the edge leaves, and the coordinate of (1,0) is not in it.
\<close>

theorem phantom_edge_list_starts_at_its_source:
  "createPhantom (compactNode l_externals) False ''1,0'' l_graph
     = (Inr (Some ''1,0''), l_graph_with_phantom) \<and>
   map_of (compactedCoordinates l_graph_with_phantom) ''0,0''
     = Some [(''1,1'', [Some (Position 0 0 []), Some (Position 1 0 [])]),
             (''1,0'', [Some (Position 0 0 [])])] \<and>
   map_of (sourceCoordinates l_graph_with_phantom) ''0,0'' = Some (Position 0 0 []) \<and>
   map_of (sourceCoordinates l_graph_with_phantom) ''1,0'' = Some (Position 1 0 [])"
  by (simp add: facade_eval l_eval)

section \<open>The returned weight\<close>

text \<open>
  C6, as the code has it: for every path \<^verbatim>\<open>findPath\<close> returns, the search on the
  compacted graph with the phantoms of the two endpoints has returned the weight
  together with a key sequence from the start key to the finish key; the returned
  geometry is the one reconstructed from that key sequence; and the weight is the
  cost accumulated along that key sequence: at each step the weight of the compacted
  edge plus the bias the direction-bias callback gives for the step. With no
  \<^verbatim>\<open>directionBias\<close> configured it is the sum of the compacted edge weights of
  that key sequence.
\<close>

theorem findPath_weight_adds_bias:
  assumes "findPath ext pf a b so = Some (Inr (Some (Path cs w ed)), pf')"
  shows "\<exists>start finish ns calls.
           resolve ext pf a = Inr start \<and> resolve ext pf b = Inr finish \<and>
           run_search ext (phantom_graph ext pf start finish) start finish so
             = Some (Inr (Some (w, start # ns)), calls) \<and>
           reconstruct (hasEdgeDataReducer pf) (phantom_graph ext pf start finish) finish (w, start # ns)
             = Inr (Some (Path cs w ed)) \<and>
           last (start # ns) = finish \<and>
           walk_cost (sharedOptions (phantom_graph ext pf start finish) finish so)
             (compactedVertices (phantom_graph ext pf start finish)) 0 [start] ns = Some w \<and>
           (user_directionBias so = None \<longrightarrow>
              path_weight (compactedVertices (phantom_graph ext pf start finish)) (start # ns) = Some w)"
proof -
  obtain start where s: "resolve ext pf a = Inr start"
    using assms by (cases "resolve ext pf a") (auto simp: findPath_def resolve_def)
  obtain finish where f: "resolve ext pf b = Inr finish"
    using assms s by (cases "resolve ext pf b") (auto simp: findPath_def resolve_def)
  have fk: "findPathFromVertexKeys ext pf start finish so = Some (Inr (Some (Path cs w ed)), pf')"
    using assms s f by (auto simp: findPath_def resolve_def split: if_splits)
  let ?G = "phantom_graph ext pf start finish"
  from fk obtain p calls where rs: "run_search ext ?G start finish so = Some (Inr (Some (w, p)), calls)"
    and rc: "reconstruct (hasEdgeDataReducer pf) ?G finish (w, p) = Inr (Some (Path cs w ed))"
    by (rule findPathFromVertexKeys_path)
  from run_search_costed [OF rs] obtain ns where p: "p = start # ns" and l: "last p = finish"
    and wc: "walk_cost (sharedOptions ?G finish so) (compactedVertices ?G) 0 [start] ns = Some w"
    unfolding costed_def by blast
  have l': "last (start # ns) = finish"
    using p l by simp
  have pw: "path_weight (compactedVertices ?G) (start # ns) = Some w" if "user_directionBias so = None"
  proof -
    from that have "directionBias (sharedOptions ?G finish so) = None"
      by (simp add: sharedOptions_def Let_def)
    from walk_cost_unbiased [OF this, of "compactedVertices ?G" 0 "[start]" ns] wc
    show ?thesis by (cases "path_weight (compactedVertices ?G) (start # ns)") simp_all
  qed
  show ?thesis
    apply (rule exI [of _ start])
    apply (rule exI [of _ finish])
    apply (rule exI [of _ ns])
    apply (rule exI [of _ calls])
    apply (intro conjI impI)
          apply (rule s)
         apply (rule f)
        apply (rule rs [unfolded p])
       apply (rule rc [unfolded p])
      apply (rule l')
     apply (rule wc)
    apply (erule pw)
    done
qed

theorem findPath_weight_adds_bias_witness:
  "findPath fork_externals fork_finder (Position 0 0 []) (Position 0 1 [])
     (default_searchOptions\<lparr> user_directionBias := Some (\<lambda>context. Inr (Finite 10)) \<rparr>)
     = Some (Inr (Some (Path [Some (Position 0 0 []), Some (Position 1 0 []), Some (Position 0 1 [])]
                          (45 / 2) None)), fork_finder) \<and>
   run_search fork_externals (phantom_graph fork_externals fork_finder ''0,0'' ''0,1'') ''0,0'' ''0,1''
     (default_searchOptions\<lparr> user_directionBias := Some (\<lambda>context. Inr (Finite 10)) \<rparr>)
     = Some (Inr (Some (45 / 2, [''0,0'', ''1,0'', ''0,1''])), []) \<and>
   walk_cost
     (sharedOptions (phantom_graph fork_externals fork_finder ''0,0'' ''0,1'') ''0,1''
        (default_searchOptions\<lparr> user_directionBias := Some (\<lambda>context. Inr (Finite 10)) \<rparr>))
     (compactedVertices (phantom_graph fork_externals fork_finder ''0,0'' ''0,1''))
     0 [''0,0''] [''1,0'', ''0,1''] = Some (45 / 2) \<and>
   path_weight (compactedVertices (phantom_graph fork_externals fork_finder ''0,0'' ''0,1''))
     [''0,0'', ''1,0'', ''0,1''] = Some (5 / 2)"
proof -
  let ?so = "default_searchOptions\<lparr> user_directionBias := Some (\<lambda>context. Inr (Finite 10)) \<rparr>"
  let ?G = "phantom_graph fork_externals fork_finder ''0,0'' ''0,1''"
  have ev: "findPath fork_externals fork_finder (Position 0 0 []) (Position 0 1 []) ?so
     = Some (Inr (Some (Path [Some (Position 0 0 []), Some (Position 1 0 []), Some (Position 0 1 [])]
                          (45 / 2) None)), fork_finder)"
    by (simp add: facade_eval search_eval fork_eval)
  have ra: "resolve fork_externals fork_finder (Position 0 0 []) = Inr ''0,0''"
    by (simp add: resolve_eval fork_eval)
  have rb: "resolve fork_externals fork_finder (Position 0 1 []) = Inr ''0,1''"
    by (simp add: resolve_eval fork_eval)
  have run: "run_search fork_externals ?G ''0,0'' ''0,1'' ?so
     = Some (Inr (Some (45 / 2, [''0,0'', ''1,0'', ''0,1''])), [])"
    by (simp add: run_search_def phantom_graph_def facade_eval search_eval fork_eval)
  have pw: "path_weight (compactedVertices ?G) [''0,0'', ''1,0'', ''0,1''] = Some (5 / 2)"
    by (simp add: phantom_graph_def facade_eval fork_eval)
  from findPath_weight_adds_bias [OF ev] obtain start finish ns calls where
    s: "resolve fork_externals fork_finder (Position 0 0 []) = Inr start"
    and f: "resolve fork_externals fork_finder (Position 0 1 []) = Inr finish"
    and rs: "run_search fork_externals (phantom_graph fork_externals fork_finder start finish) start finish ?so
               = Some (Inr (Some (45 / 2, start # ns)), calls)"
    and wc: "walk_cost (sharedOptions (phantom_graph fork_externals fork_finder start finish) finish ?so)
               (compactedVertices (phantom_graph fork_externals fork_finder start finish)) 0 [start] ns
               = Some (45 / 2)"
    by blast
  from s ra have st: "start = ''0,0''" by simp
  from f rb have fi: "finish = ''0,1''" by simp
  from rs [unfolded st fi] run have ns: "ns = [''1,0'', ''0,1'']" by simp
  from ev run wc [unfolded st fi ns] pw show ?thesis
    by (intro conjI)
qed

text \<open>
  The claim as it is written fails with a bias: on the fork network a bias of
  10 on every step gives the path over (1,0) the weight 45/2, while its two
  compacted edges weigh 1 + 3/2 = 5/2.
\<close>

theorem biased_weight_is_not_the_edge_sum:
  "findPath fork_externals fork_finder (Position 0 0 []) (Position 0 1 [])
     (default_searchOptions\<lparr> user_directionBias := Some (\<lambda>context. Inr (Finite 10)) \<rparr>)
   = Some (Inr (Some (Path [Some (Position 0 0 []), Some (Position 1 0 []), Some (Position 0 1 [])]
                        (45 / 2) None)), fork_finder) \<and>
   path_weight (compactedVertices (graph fork_finder)) [''0,0'', ''1,0'', ''0,1''] = Some (5 / 2)"
  by (simp add: facade_eval search_eval fork_eval)

section \<open>Endpoint resolution\<close>

lemma resolveVertexKey_matching:
  "resolveVertexKey g q kf tol =
     (if map_of (vertices g) (kf q) \<noteq> None then Inr (kf q)
      else if length (matching_keys g q tol) = 1 then Inr (matching_keys g q tol ! 0)
      else if length (matching_keys g q tol) > 1 then Inl (AmbiguousVertex q (matching_keys g q tol))
      else Inr (kf q))"
  by (simp add: resolveVertexKey_def matching_keys_def Let_def)

lemma findPath_resolve:
  "findPath ext pf a b so =
     (case resolve ext pf a of
        Inl e \<Rightarrow> Some (Inl e, pf)
      | Inr start \<Rightarrow>
          (case resolve ext pf b of
             Inl e \<Rightarrow> Some (Inl e, pf)
           | Inr finish \<Rightarrow>
               if map_of (vertices (graph pf)) start = None \<or> map_of (vertices (graph pf)) finish = None
               then Some (Inr None, pf)
               else findPathFromVertexKeys ext pf start finish so))"
  unfolding findPath_def resolve_def ..

lemma resolve_error:
  "resolve ext pf x = Inl e \<Longrightarrow> \<exists>c ks. e = AmbiguousVertex c ks"
  by (auto simp: resolve_def resolveVertexKey_matching split: if_splits)

text \<open>
  C7, as the code has it: when \<^verbatim>\<open>findPath\<close> resolves an endpoint \<open>x\<close>
  (either of \<open>a\<close>, \<open>b\<close>) whose direct key is not a vertex of the raw graph:
  with exactly one matching source coordinate the resolved key is that vertex's;
  with more than one, resolution throws the ambiguous-coordinate error and
  \<^verbatim>\<open>findPath\<close> throws one; with none, resolution returns the direct key
  without throwing, and \<^verbatim>\<open>findPath\<close> returns absent provided the resolution
  of neither endpoint throws. Resolution throws nothing but the
  ambiguous-coordinate error, and only in the second case.
\<close>

theorem endpoint_resolution:
  assumes "map_of (vertices (graph pf)) (key_of ext pf (roundCoord x (tolerance_of pf))) = None"
    and "x = a \<or> x = b"
  shows "(matching_keys (graph pf) (roundCoord x (tolerance_of pf)) (tolerance_of pf) = [k]
            \<longrightarrow> resolve ext pf x = Inr k) \<and>
         (length (matching_keys (graph pf) (roundCoord x (tolerance_of pf)) (tolerance_of pf)) > 1
            \<longrightarrow> resolve ext pf x =
                  Inl (AmbiguousVertex (roundCoord x (tolerance_of pf))
                         (matching_keys (graph pf) (roundCoord x (tolerance_of pf)) (tolerance_of pf))) \<and>
                (\<exists>c ks. findPath ext pf a b so = Some (Inl (AmbiguousVertex c ks), pf))) \<and>
         (matching_keys (graph pf) (roundCoord x (tolerance_of pf)) (tolerance_of pf) = []
            \<longrightarrow> resolve ext pf x = Inr (key_of ext pf (roundCoord x (tolerance_of pf))) \<and>
                ((\<forall>e. resolve ext pf a \<noteq> Inl e) \<and> (\<forall>e. resolve ext pf b \<noteq> Inl e)
                   \<longrightarrow> findPath ext pf a b so = Some (Inr None, pf))) \<and>
         (\<forall>y e. resolve ext pf y = Inl e \<longrightarrow>
            map_of (vertices (graph pf)) (key_of ext pf (roundCoord y (tolerance_of pf))) = None \<and>
            length (matching_keys (graph pf) (roundCoord y (tolerance_of pf)) (tolerance_of pf)) > 1 \<and>
            e = AmbiguousVertex (roundCoord y (tolerance_of pf))
                  (matching_keys (graph pf) (roundCoord y (tolerance_of pf)) (tolerance_of pf)))"
proof (intro conjI impI allI)
  let ?q = "roundCoord x (tolerance_of pf)"
  let ?ms = "matching_keys (graph pf) ?q (tolerance_of pf)"
  show "resolve ext pf x = Inr k" if "?ms = [k]"
    using assms(1) that by (simp add: resolve_def resolveVertexKey_matching)
  show amb: "resolve ext pf x = Inl (AmbiguousVertex ?q ?ms)" if "length ?ms > 1"
    using assms(1) that by (simp add: resolve_def resolveVertexKey_matching)
  show "\<exists>c ks. findPath ext pf a b so = Some (Inl (AmbiguousVertex c ks), pf)" if "length ?ms > 1"
  proof (cases "resolve ext pf a")
    case (Inl e)
    with resolve_error [OF Inl] show ?thesis by (auto simp: findPath_resolve)
  next
    case (Inr start)
    with assms(2) amb [OF that] have "resolve ext pf b = Inl (AmbiguousVertex ?q ?ms)" by auto
    with Inr show ?thesis by (simp add: findPath_resolve)
  qed
  show none: "resolve ext pf x = Inr (key_of ext pf ?q)" if "?ms = []"
    using assms(1) that by (simp add: resolve_def resolveVertexKey_matching)
  show "findPath ext pf a b so = Some (Inr None, pf)"
    if "?ms = []" and ok: "(\<forall>e. resolve ext pf a \<noteq> Inl e) \<and> (\<forall>e. resolve ext pf b \<noteq> Inl e)"
  proof -
    from ok obtain start finish where s: "resolve ext pf a = Inr start" and f: "resolve ext pf b = Inr finish"
      by (cases "resolve ext pf a"; cases "resolve ext pf b") auto
    from none [OF that(1)] assms s f
    have "map_of (vertices (graph pf)) start = None \<or> map_of (vertices (graph pf)) finish = None"
      by auto
    with s f show ?thesis by (simp add: findPath_resolve)
  qed
next
  fix y e assume r: "resolve ext pf y = Inl e"
  let ?q = "roundCoord y (tolerance_of pf)"
  let ?ms = "matching_keys (graph pf) ?q (tolerance_of pf)"
  from r show "map_of (vertices (graph pf)) (key_of ext pf ?q) = None"
    by (auto simp: resolve_def resolveVertexKey_matching split: if_splits)
  from r show "length ?ms > 1"
    by (auto simp: resolve_def resolveVertexKey_matching split: if_splits)
  from r show "e = AmbiguousVertex ?q ?ms"
    by (auto simp: resolve_def resolveVertexKey_matching split: if_splits)
qed

theorem endpoint_resolution_witness:
  "map_of (vertices (graph bridge_finder))
     (key_of fork_externals bridge_finder (roundCoord (Position 7 7 []) (tolerance_of bridge_finder))) = None \<and>
   matching_keys (graph bridge_finder) (roundCoord (Position 7 7 []) (tolerance_of bridge_finder))
     (tolerance_of bridge_finder) = [] \<and>
   resolve fork_externals bridge_finder (Position 2 0 []) = Inr ''2,0,0'' \<and>
   findPath fork_externals bridge_finder (Position 7 7 []) (Position 2 0 []) default_searchOptions
     = Some (Inr None, bridge_finder)"
proof -
  have nv: "map_of (vertices (graph bridge_finder))
     (key_of fork_externals bridge_finder (roundCoord (Position 7 7 []) (tolerance_of bridge_finder))) = None"
    by (simp add: resolve_eval bridge_eval)
  have ms: "matching_keys (graph bridge_finder) (roundCoord (Position 7 7 []) (tolerance_of bridge_finder))
     (tolerance_of bridge_finder) = []"
    by (simp add: resolve_eval bridge_eval)
  have ra: "resolve fork_externals bridge_finder (Position 7 7 []) = Inr ''7,7''"
    by (simp add: resolve_eval bridge_eval)
  have rb: "resolve fork_externals bridge_finder (Position 2 0 []) = Inr ''2,0,0''"
    by (simp add: resolve_eval bridge_eval)
  from endpoint_resolution [OF nv, where a = "Position 7 7 []" and b = "Position 2 0 []"
      and k = "''7,7''" and so = default_searchOptions]
    ms ra rb
  have "findPath fork_externals bridge_finder (Position 7 7 []) (Position 2 0 []) default_searchOptions
     = Some (Inr None, bridge_finder)"
    by simp
  with nv ms rb show ?thesis by simp
qed

text \<open>
  The claim as it is written fails when the start matches nothing and the
  finish is ambiguous: both endpoints are resolved before the vertices are
  looked up, so \<^verbatim>\<open>findPath\<close> throws instead of returning absent.
\<close>

theorem off_network_start_with_ambiguous_finish_throws:
  "map_of (vertices (graph bridge_finder))
     (key_of fork_externals bridge_finder (roundCoord (Position 7 7 []) (tolerance_of bridge_finder))) = None \<and>
   matching_keys (graph bridge_finder) (roundCoord (Position 7 7 []) (tolerance_of bridge_finder))
     (tolerance_of bridge_finder) = [] \<and>
   findPath fork_externals bridge_finder (Position 7 7 []) (Position 0 0 []) default_searchOptions
     = Some (Inl (AmbiguousVertex (Position 0 0 []) [''0,0,0'', ''0,0,5'']), bridge_finder)"
  by (simp add: resolve_eval findPath_def bridge_eval)

section \<open>Dispatch to the worker pool\<close>


lemma pool_fails_not_available: "pool_fails ext pf \<Longrightarrow> \<not> pool_available ext pf"
  by (auto simp: pool_available_def pool_fails_def)











section \<open>A search from a vertex to itself\<close>

lemma createPhantom_incoming_vertices:
  assumes "createPhantom_incoming ph n k g = (r, g')" and "map_of (compactedVertices g) x \<noteq> None"
  shows "map_of (compactedVertices g') x \<noteq> None"
  using assms
  by (auto simp: createPhantom_incoming_def Let_def update_conv' split: option.splits if_splits)

lemma forEach_st_vertices:
  assumes "forEach_st (createPhantom_incoming ph n) ks g = (r, g')"
    and "map_of (compactedVertices g) x \<noteq> None"
  shows "map_of (compactedVertices g') x \<noteq> None"
  using assms
proof (induction ks arbitrary: g)
  case Nil
  then show ?case by simp
next
  case (Cons k ks)
  obtain r1 g1 where s: "createPhantom_incoming ph n k g = (r1, g1)"
    by (cases "createPhantom_incoming ph n k g")
  from createPhantom_incoming_vertices [OF s Cons.prems(2)]
  have g1: "map_of (compactedVertices g1) x \<noteq> None" .
  show ?case
  proof (cases r1)
    case None
    with Cons.prems(1) s have "forEach_st (createPhantom_incoming ph n) ks g1 = (r, g')" by simp
    from Cons.IH [OF this g1] show ?thesis .
  next
    case (Some e)
    with Cons.prems(1) s have "g' = g1" by simp
    with g1 show ?thesis by simp
  qed
qed

lemma createPhantom_present:
  assumes "createPhantom cn hr k g = (Inr ph, g1)"
  shows "map_of (compactedVertices g1) k \<noteq> None"
proof (cases "map_of (compactedVertices g) k = None")
  case False
  with assms show ?thesis by (auto simp: createPhantom_def)
next
  case True
  let ?ph = "cn k g"
  define g0 where "g0 = g\<lparr> compactedVertices := AList.update k (edges ?ph) (compactedVertices g),
                           compactedCoordinates := AList.update k (ph_coordinates ?ph) (compactedCoordinates g) \<rparr>"
  define g2 where "g2 = (if hr then (case compactedEdges g0 of None \<Rightarrow> g0
                          | Some ce \<Rightarrow> g0\<lparr> compactedEdges := Some (AList.update k (reducedEdges ?ph) ce) \<rparr>)
                        else g0)"
  have k2: "map_of (compactedVertices g2) k \<noteq> None"
    by (simp add: g2_def g0_def update_conv' split: option.splits)
  obtain r where fe: "forEach_st (createPhantom_incoming ?ph k) (obj_keys (incomingEdges ?ph)) g2 = (r, g1)"
    using assms True
    by (auto simp: createPhantom_def Let_def g0_def g2_def split: option.splits if_splits prod.splits)
  from forEach_st_vertices [OF fe k2] show ?thesis .
qed

lemma createPhantom_source:
  assumes "createPhantom cn hr k g = (r, g1)"
  shows "sourceCoordinates g1 = sourceCoordinates g"
proof (cases "map_of (compactedVertices g) k = None")
  case False
  with assms show ?thesis by (auto simp: createPhantom_def)
next
  case True
  let ?ph = "cn k g"
  define g0 where "g0 = g\<lparr> compactedVertices := AList.update k (edges ?ph) (compactedVertices g),
                           compactedCoordinates := AList.update k (ph_coordinates ?ph) (compactedCoordinates g) \<rparr>"
  show ?thesis
  proof (cases "hr \<and> compactedEdges g0 = None")
    case True
    with assms \<open>map_of (compactedVertices g) k = None\<close> show ?thesis
      by (auto simp: createPhantom_def Let_def g0_def)
  next
    case False
    define g2 where "g2 = (if hr then (case compactedEdges g0 of None \<Rightarrow> g0
                          | Some ce \<Rightarrow> g0\<lparr> compactedEdges := Some (AList.update k (reducedEdges ?ph) ce) \<rparr>)
                        else g0)"
    have s2: "sourceCoordinates g2 = sourceCoordinates g"
      by (simp add: g2_def g0_def split: option.splits)
    obtain r' where fe: "forEach_st (createPhantom_incoming ?ph k) (obj_keys (incomingEdges ?ph)) g2 = (r', g1)"
      using assms \<open>map_of (compactedVertices g) k = None\<close> False
      by (auto simp: createPhantom_def Let_def g0_def g2_def split: option.splits if_splits prod.splits)
    from forEach_st_source [OF fe] s2 show ?thesis by simp
  qed
qed

lemma dijkstra_same_key:
  assumes "case onNodeExpanded options of None \<Rightarrow> True | Some f \<Rightarrow> f (k, 0) = None"
  shows "\<exists>calls. findPathDijkstra g k k options = Some (Inr (Some (0, [k])), calls)"
  using assms
  by (subst findPathDijkstra_def, subst loop.simps)
     (auto simp: dijkstra_body_def notify_expanded_def Let_def split: option.splits)

lemma astar_same_key:
  assumes "case onNodeExpanded options of None \<Rightarrow> True | Some f \<Rightarrow> f (k, 0) = None"
  shows "\<exists>calls. findPathAStar d g k k options = Some (Inr (Some (0, [k])), calls)"
  using assms
  by (subst findPathAStar_def, subst loop.simps)
     (auto simp: astar_body_def notify_expanded_def Let_def split: option.splits)

lemma run_search_same_key:
  assumes "case user_onNodeExpanded so of None \<Rightarrow> True | Some f \<Rightarrow> f (k, 0) = None"
  shows "\<exists>calls. run_search ext g k k so = Some (Inr (Some (0, [k])), calls)"
proof (cases "algorithm so = Some AStar")
  case True
  have "case onNodeExpanded ((sharedOptions g k so)\<lparr> coordinates := Some (sourceCoordinates g) \<rparr>) of
          None \<Rightarrow> True | Some f \<Rightarrow> f (k, 0) = None"
    using assms by (simp add: sharedOptions_def Let_def)
  from astar_same_key [OF this] True show ?thesis by (simp add: run_search_def)
next
  case False
  have "case onNodeExpanded (sharedOptions g k so) of None \<Rightarrow> True | Some f \<Rightarrow> f (k, 0) = None"
    using assms by (simp add: sharedOptions_def Let_def)
  from dijkstra_same_key [OF this] False show ?thesis by (simp add: run_search_def)
qed

lemma findPathFromVertexKeys_run_search:
  assumes "map_of (vertices (graph pf)) start \<noteq> None" "map_of (vertices (graph pf)) finish \<noteq> None"
    and "createPhantom (compactNode ext) (hasEdgeDataReducer pf) start (graph pf) = (Inr phantomStart, g1)"
    and "createPhantom (compactNode ext) (hasEdgeDataReducer pf) finish g1 = (Inr phantomEnd, g2)"
    and "run_search ext g2 start finish so = Some (outcome, calls)"
    and "removePhantom (hasEdgeDataReducer pf) phantomStart g2 = (None, g3)"
    and "removePhantom (hasEdgeDataReducer pf) phantomEnd g3 = (None, g4)"
  shows "findPathFromVertexKeys ext pf start finish so =
           Some ((case outcome of
                    Inl e \<Rightarrow> Inl e
                  | Inr None \<Rightarrow> Inr None
                  | Inr (Some pathResult) \<Rightarrow> reconstruct (hasEdgeDataReducer pf) g2 finish pathResult),
                 pf\<lparr> graph := g4 \<rparr>)"
proof -
  from assms(1,2) obtain vs vf where "map_of (vertices (graph pf)) start = Some vs"
    "map_of (vertices (graph pf)) finish = Some vf"
    by auto
  with assms(3-7) show ?thesis
    by (simp add: findPathFromVertexKeys_def run_search_def Let_def)
qed

text \<open>
  C10, for a request whose callback does not throw: if both points of a
  \<^verbatim>\<open>findPath\<close> call resolve to the same key \<open>k\<close>, a vertex of the raw graph, the
  phantom of \<open>k\<close> is created and removed without a type error, and the expansion
  callback, if one is given, does not throw for \<open>k\<close> at cost 0, then \<^verbatim>\<open>findPath\<close>
  returns a path of weight 0 whose geometry is the single coordinate
  \<^verbatim>\<open>sourceCoordinates[k]\<close>, with an empty \<^verbatim>\<open>edgeDatas\<close> list when a reducer is
  configured (and none otherwise). This is so for Dijkstra and for A*.
\<close>

theorem same_vertex_gives_single_point:
  assumes "resolve ext pf a = Inr k" and "resolve ext pf b = Inr k"
    and "map_of (vertices (graph pf)) k \<noteq> None"
    and "createPhantom (compactNode ext) (hasEdgeDataReducer pf) k (graph pf) = (Inr ph, g1)"
    and "removePhantom (hasEdgeDataReducer pf) ph g1 = (None, g2)"
    and "case user_onNodeExpanded so of None \<Rightarrow> True | Some f \<Rightarrow> f (k, 0) = None"
  shows "findPath ext pf a b so =
           Some (Inr (Some (Path [map_of (sourceCoordinates (graph pf)) k] 0
                              (if hasEdgeDataReducer pf then Some [] else None))),
                 pf\<lparr> graph := g2 \<rparr>)"
proof -
  let ?hr = "hasEdgeDataReducer pf"
  have present: "map_of (compactedVertices g1) k \<noteq> None"
    using createPhantom_present [OF assms(4)] .
  then have c2: "createPhantom (compactNode ext) ?hr k g1 = (Inr None, g1)"
    by (simp add: createPhantom_def)
  have rm2: "removePhantom ?hr None g2 = (None, g2)"
    by (simp add: removePhantom_def)
  from run_search_same_key [OF assms(6)] obtain calls where
    rs: "run_search ext g1 k k so = Some (Inr (Some (0, [k])), calls)"
    by blast
  have src: "sourceCoordinates g1 = sourceCoordinates (graph pf)"
    using createPhantom_source [OF assms(4)] .
  have rec: "reconstruct ?hr g1 k (0, [k]) =
               Inr (Some (Path [map_of (sourceCoordinates (graph pf)) k] 0 (if ?hr then Some [] else None)))"
    by (simp add: reconstruct_def src)
  from findPathFromVertexKeys_run_search [OF assms(3) assms(3) assms(4) c2 rs assms(5) rm2]
  have "findPathFromVertexKeys ext pf k k so =
          Some (Inr (Some (Path [map_of (sourceCoordinates (graph pf)) k] 0 (if ?hr then Some [] else None))),
                pf\<lparr> graph := g2 \<rparr>)"
    by (simp add: rec)
  with assms(1-3) show ?thesis
    by (simp add: findPath_resolve)
qed

theorem same_vertex_gives_single_point_witness:
  "resolve l_externals l_finder (Position 1 0 []) = Inr ''1,0'' \<and>
   createPhantom (compactNode l_externals) (hasEdgeDataReducer l_finder) ''1,0'' (graph l_finder)
     = (Inr (Some ''1,0''), l_graph_with_phantom) \<and>
   findPath l_externals l_finder (Position 1 0 []) (Position 1 0 []) default_searchOptions =
     Some (Inr (Some (Path [Some (Position 1 0 [])] 0 None)),
           l_finder\<lparr> graph := l_graph\<lparr> compactedEdges :=
             Some [(''0,0'', [(''1,0'', None)]), (''1,1'', [(''1,0'', None)])] \<rparr> \<rparr>)"
proof -
  have r: "resolve l_externals l_finder (Position 1 0 []) = Inr ''1,0''"
    by (simp add: resolve_eval l_eval)
  have v: "map_of (vertices (graph l_finder)) ''1,0'' \<noteq> None"
    by (simp add: l_eval)
  have cp: "createPhantom (compactNode l_externals) (hasEdgeDataReducer l_finder) ''1,0'' (graph l_finder)
     = (Inr (Some ''1,0''), l_graph_with_phantom)"
    by (simp add: facade_eval l_eval)
  have rp: "removePhantom (hasEdgeDataReducer l_finder) (Some ''1,0'') l_graph_with_phantom
     = (None, l_graph\<lparr> compactedEdges :=
             Some [(''0,0'', [(''1,0'', None)]), (''1,1'', [(''1,0'', None)])] \<rparr>)"
    by (simp add: facade_eval l_eval)
  have cb: "case user_onNodeExpanded default_searchOptions of None \<Rightarrow> True | Some f \<Rightarrow> f (''1,0'', 0) = None"
    by (simp add: default_searchOptions_def)
  from same_vertex_gives_single_point [OF r r v cp rp cb] r cp show ?thesis
    by (simp add: l_eval)
qed

text \<open>
  The claim as it is written fails when the request has an expansion callback that
  throws: both searches call it for the popped start vertex before they test for the
  goal, so the call of \<^verbatim>\<open>findPath\<close> throws what the callback throws, with
  either algorithm.
\<close>

theorem same_vertex_with_throwing_callback_throws:
  "resolve fork_externals fork_finder (Position 0 0 []) = Inr ''0,0'' \<and>
   findPath fork_externals fork_finder (Position 0 0 []) (Position 0 0 [])
     (default_searchOptions\<lparr> user_onNodeExpanded := Some (\<lambda>call. Some (Thrown ''stop'')) \<rparr>)
     = Some (Inl (Thrown ''stop''), fork_finder) \<and>
   findPath fork_externals fork_finder (Position 0 0 []) (Position 0 0 [])
     (default_searchOptions\<lparr> algorithm := Some AStar,
        user_onNodeExpanded := Some (\<lambda>call. Some (Thrown ''stop'')) \<rparr>)
     = Some (Inl (Thrown ''stop''), fork_finder)"
  by (simp add: resolve_eval facade_eval search_eval fork_eval)

section \<open>Expansion and its callback\<close>

lemma notify_expanded_eq:
  "notify_expanded options node c calls = (callback_throws options node c, calls_after options node c calls)"
  by (simp add: notify_expanded_def callback_throws_def calls_after_def split: option.splits)

lemma astar_pass:
  assumes "queue_pop (\<lambda>s. fst (snd s)) (a_queue v) = Some ((c, est, p, node), q)"
  shows "(stale (a_costs v) node c \<longrightarrow> astar_body d g e options v = Continue (v\<lparr> a_queue := q \<rparr>))"
    and "(\<not> stale (a_costs v) node c \<longrightarrow>
           pass_calls (astar_body d g e options v) a_calls = calls_after options node c (a_calls v))"
    and "(\<not> stale (a_costs v) node c \<longrightarrow> callback_throws options node c = Some err \<longrightarrow>
           astar_body d g e options v = Done (Inl err, calls_after options node c (a_calls v)))"
    and "(\<not> stale (a_costs v) node c \<longrightarrow> callback_throws options node c = None \<longrightarrow> node = e \<longrightarrow>
           astar_body d g e options v = Done (Inr (Some (c, p)), calls_after options node c (a_calls v)))"
proof -
  show "stale (a_costs v) node c \<longrightarrow> astar_body d g e options v = Continue (v\<lparr> a_queue := q \<rparr>)"
    using assms by (simp add: astar_body_def stale_def)
  show "\<not> stale (a_costs v) node c \<longrightarrow>
           pass_calls (astar_body d g e options v) a_calls = calls_after options node c (a_calls v)"
    using assms
    by (cases "callback_throws options node c"; cases "map_of g node";
        cases "forEach (astar_relax d e options (c, est, p, node) (the (map_of g node)))
                 (obj_keys (the (map_of g node))) (a_costs v, q)")
       (auto simp: astar_body_def stale_def notify_expanded_eq pass_calls_def)
  show "\<not> stale (a_costs v) node c \<longrightarrow> callback_throws options node c = Some err \<longrightarrow>
           astar_body d g e options v = Done (Inl err, calls_after options node c (a_calls v))"
    using assms by (simp add: astar_body_def stale_def notify_expanded_eq)
  show "\<not> stale (a_costs v) node c \<longrightarrow> callback_throws options node c = None \<longrightarrow> node = e \<longrightarrow>
           astar_body d g e options v = Done (Inr (Some (c, p)), calls_after options node c (a_calls v))"
    using assms by (auto simp: astar_body_def stale_def notify_expanded_eq)
qed

lemma dijkstra_pass:
  assumes "queue_pop fst (d_queue v) = Some ((c, p, node), q)"
  shows "pass_calls (dijkstra_body g e options v) d_calls = calls_after options node c (d_calls v)"
    and "(callback_throws options node c = Some err \<longrightarrow>
           dijkstra_body g e options v = Done (Inl err, calls_after options node c (d_calls v)))"
    and "(callback_throws options node c = None \<longrightarrow> node = e \<longrightarrow>
           dijkstra_body g e options v = Done (Inr (Some (c, p)), calls_after options node c (d_calls v)))"
proof -
  show "pass_calls (dijkstra_body g e options v) d_calls = calls_after options node c (d_calls v)"
    using assms
    by (cases "callback_throws options node c"; cases "map_of g node";
        cases "forEach (dijkstra_relax options (c, p, node) (the (map_of g node)))
                 (obj_keys (the (map_of g node))) (d_costs v, q)")
       (auto simp: dijkstra_body_def notify_expanded_eq pass_calls_def)
  show "callback_throws options node c = Some err \<longrightarrow>
           dijkstra_body g e options v = Done (Inl err, calls_after options node c (d_calls v))"
    using assms by (simp add: dijkstra_body_def notify_expanded_eq)
  show "callback_throws options node c = None \<longrightarrow> node = e \<longrightarrow>
           dijkstra_body g e options v = Done (Inr (Some (c, p)), calls_after options node c (d_calls v))"
    using assms by (auto simp: dijkstra_body_def notify_expanded_eq)
qed

text \<open>
  C3, as the code has it: in the A* search a popped entry whose cost exceeds
  the best-known cost of its node is discarded: the pass goes on with the queue
  without that entry and nothing else changed, no callback made. In both searches
  a pass that pops an entry that is not stale makes exactly one call to
  \<^verbatim>\<open>onNodeExpanded\<close> (when one is configured), for the popped node and cost,
  and makes it before the goal check: if the call throws, the search ends with
  that error; if it returns and the node is the goal, the search returns the
  popped cost and path.
\<close>

theorem expansion_callback_per_accepted_pop:
  "(queue_pop (\<lambda>s. fst (snd s)) (a_queue av) = Some ((c, est, p, node), q) \<longrightarrow>
      (stale (a_costs av) node c \<longrightarrow> astar_body d g e options av = Continue (av\<lparr> a_queue := q \<rparr>)) \<and>
      (\<not> stale (a_costs av) node c \<longrightarrow>
         pass_calls (astar_body d g e options av) a_calls = calls_after options node c (a_calls av) \<and>
         (\<forall>err. callback_throws options node c = Some err \<longrightarrow>
            astar_body d g e options av = Done (Inl err, calls_after options node c (a_calls av))) \<and>
         (callback_throws options node c = None \<longrightarrow> node = e \<longrightarrow>
            astar_body d g e options av
              = Done (Inr (Some (c, p)), calls_after options node c (a_calls av)))))
   \<and>
   (queue_pop fst (d_queue dv) = Some ((c, p, node), q') \<longrightarrow> \<not> stale (d_costs dv) node c \<longrightarrow>
      pass_calls (dijkstra_body g e options dv) d_calls = calls_after options node c (d_calls dv) \<and>
      (\<forall>err. callback_throws options node c = Some err \<longrightarrow>
         dijkstra_body g e options dv = Done (Inl err, calls_after options node c (d_calls dv))) \<and>
      (callback_throws options node c = None \<longrightarrow> node = e \<longrightarrow>
         dijkstra_body g e options dv
           = Done (Inr (Some (c, p)), calls_after options node c (d_calls dv))))"
proof (rule conjI)
  show "queue_pop (\<lambda>s. fst (snd s)) (a_queue av) = Some ((c, est, p, node), q) \<longrightarrow>
      (stale (a_costs av) node c \<longrightarrow> astar_body d g e options av = Continue (av\<lparr> a_queue := q \<rparr>)) \<and>
      (\<not> stale (a_costs av) node c \<longrightarrow>
         pass_calls (astar_body d g e options av) a_calls = calls_after options node c (a_calls av) \<and>
         (\<forall>err. callback_throws options node c = Some err \<longrightarrow>
            astar_body d g e options av = Done (Inl err, calls_after options node c (a_calls av))) \<and>
         (callback_throws options node c = None \<longrightarrow> node = e \<longrightarrow>
            astar_body d g e options av
              = Done (Inr (Some (c, p)), calls_after options node c (a_calls av))))"
  proof
    assume pop: "queue_pop (\<lambda>s. fst (snd s)) (a_queue av) = Some ((c, est, p, node), q)"
    from astar_pass [OF pop, where d = d and g = g and e = e and options = options]
    show "(stale (a_costs av) node c \<longrightarrow> astar_body d g e options av = Continue (av\<lparr> a_queue := q \<rparr>)) \<and>
      (\<not> stale (a_costs av) node c \<longrightarrow>
         pass_calls (astar_body d g e options av) a_calls = calls_after options node c (a_calls av) \<and>
         (\<forall>err. callback_throws options node c = Some err \<longrightarrow>
            astar_body d g e options av = Done (Inl err, calls_after options node c (a_calls av))) \<and>
         (callback_throws options node c = None \<longrightarrow> node = e \<longrightarrow>
            astar_body d g e options av
              = Done (Inr (Some (c, p)), calls_after options node c (a_calls av))))"
      by blast
  qed
  show "queue_pop fst (d_queue dv) = Some ((c, p, node), q') \<longrightarrow> \<not> stale (d_costs dv) node c \<longrightarrow>
      pass_calls (dijkstra_body g e options dv) d_calls = calls_after options node c (d_calls dv) \<and>
      (\<forall>err. callback_throws options node c = Some err \<longrightarrow>
         dijkstra_body g e options dv = Done (Inl err, calls_after options node c (d_calls dv))) \<and>
      (callback_throws options node c = None \<longrightarrow> node = e \<longrightarrow>
         dijkstra_body g e options dv
           = Done (Inr (Some (c, p)), calls_after options node c (d_calls dv)))"
  proof (intro impI)
    assume pop: "queue_pop fst (d_queue dv) = Some ((c, p, node), q')"
    from dijkstra_pass [OF pop, where g = g and e = e and options = options]
    show "pass_calls (dijkstra_body g e options dv) d_calls = calls_after options node c (d_calls dv) \<and>
      (\<forall>err. callback_throws options node c = Some err \<longrightarrow>
         dijkstra_body g e options dv = Done (Inl err, calls_after options node c (d_calls dv))) \<and>
      (callback_throws options node c = None \<longrightarrow> node = e \<longrightarrow>
         dijkstra_body g e options dv
           = Done (Inr (Some (c, p)), calls_after options node c (d_calls dv)))"
      by blast
  qed
qed

theorem expansion_callback_per_accepted_pop_witness:
  "astar_body stand_in_distance stale_graph ''G'' log_options
     \<lparr> a_costs = [(''S'', 0), (''A'', 2)], a_queue = [(5, 5, [''S'', ''A''], ''A'')], a_calls = [] \<rparr>
     = Continue \<lparr> a_costs = [(''S'', 0), (''A'', 2)], a_queue = [], a_calls = [] \<rparr> \<and>
   astar_body stand_in_distance stale_graph ''G'' log_options
     \<lparr> a_costs = [(''S'', 0), (''G'', 12)], a_queue = [(12, 12, [''S'', ''G''], ''G'')],
       a_calls = [(''S'', 0)] \<rparr>
     = Done (Inr (Some (12, [''S'', ''G''])), [(''S'', 0), (''G'', 12)]) \<and>
   dijkstra_body stale_graph ''G'' log_options
     \<lparr> d_costs = [(''S'', 0), (''G'', 12)], d_queue = [(12, [''S'', ''G''], ''G'')],
       d_calls = [(''S'', 0)] \<rparr>
     = Done (Inr (Some (12, [''S'', ''G''])), [(''S'', 0), (''G'', 12)])"
proof -
  let ?av1 = "\<lparr> a_costs = [(''S'', 0), (''A'', 2)], a_queue = [(5, 5, [''S'', ''A''], ''A'')],
                 a_calls = [] \<rparr>"
  let ?av2 = "\<lparr> a_costs = [(''S'', 0), (''G'', 12)], a_queue = [(12, 12, [''S'', ''G''], ''G'')],
                 a_calls = [(''S'', 0)] \<rparr>"
  let ?dv = "\<lparr> d_costs = [(''S'', 0), (''G'', 12)], d_queue = [(12, [''S'', ''G''], ''G'')],
                d_calls = [(''S'', 0)] \<rparr>"
  have pop1: "queue_pop (\<lambda>s. fst (snd s)) (a_queue ?av1) = Some ((5, 5, [''S'', ''A''], ''A''), [])"
    by simp
  have st1: "stale (a_costs ?av1) ''A'' 5"
    by (simp add: stale_def)
  have pop2: "queue_pop (\<lambda>s. fst (snd s)) (a_queue ?av2) = Some ((12, 12, [''S'', ''G''], ''G''), [])"
    by simp
  have st2: "\<not> stale (a_costs ?av2) ''G'' 12"
    by (simp add: stale_def)
  have popd: "queue_pop fst (d_queue ?dv) = Some ((12, [''S'', ''G''], ''G''), [])"
    by simp
  have std: "\<not> stale (d_costs ?dv) ''G'' 12"
    by (simp add: stale_def)
  have ct: "callback_throws log_options ''G'' 12 = None"
    by (simp add: callback_throws_def log_options_def no_options_def)
  have ca: "calls_after log_options ''G'' 12 [(''S'', 0)] = [(''S'', 0), (''G'', 12)]"
    by (simp add: calls_after_def log_options_def no_options_def)
  from expansion_callback_per_accepted_pop
         [where av = ?av1 and c = 5 and est = 5 and p = "[''S'', ''A'']" and node = "''A''"
            and q = "[]" and d = stand_in_distance and g = stale_graph and e = "''G''"
            and options = log_options] pop1 st1
  have one: "astar_body stand_in_distance stale_graph ''G'' log_options ?av1
               = Continue (?av1\<lparr> a_queue := [] \<rparr>)"
    by blast
  from expansion_callback_per_accepted_pop
         [where av = ?av2 and c = 12 and est = 12 and p = "[''S'', ''G'']" and node = "''G''"
            and q = "[]" and d = stand_in_distance and g = stale_graph and e = "''G''"
            and options = log_options and dv = ?dv and q' = "[]"] pop2 st2 popd std ct
  have two: "astar_body stand_in_distance stale_graph ''G'' log_options ?av2
               = Done (Inr (Some (12, [''S'', ''G''])), calls_after log_options ''G'' 12 (a_calls ?av2))"
    and three: "dijkstra_body stale_graph ''G'' log_options ?dv
               = Done (Inr (Some (12, [''S'', ''G''])), calls_after log_options ''G'' 12 (d_calls ?dv))"
    by blast+
  from one two three ca show ?thesis
    by simp
qed

text \<open>
  The claim as it is written fails in the A* search: with a bias that rewards
  the step from B to A, the vertex A is accepted and expanded at cost 1 and again
  at cost -7, so the callback is called twice for it.
\<close>

theorem astar_expands_a_vertex_twice:
  "findPathAStar stand_in_distance reward_graph ''S'' ''G''
     (log_options\<lparr> directionBias := Some rewarding_bias \<rparr>)
   = Some (Inr (Some (3, [''S'', ''B'', ''A'', ''G''])),
           [(''S'', 0), (''A'', 1), (''B'', 2), (''A'', - 7), (''G'', 3)])"
  by (simp add: search_eval reward_graph_def log_options_def rewarding_bias_def)

text \<open>
  The Dijkstra search of dijkstra.ts has no test for stale entries: here the
  entry of A at cost 5 is popped after A was expanded at cost 2, and it is
  expanded and reported like any other.
\<close>

lemma dijkstra_expands_a_stale_entry:
  "findPathDijkstra stale_graph ''S'' ''G'' log_options
   = Some (Inr (Some (12, [''S'', ''B'', ''A'', ''G''])),
           [(''S'', 0), (''B'', 1), (''A'', 2), (''A'', 5), (''G'', 12)])"
  by (simp add: search_eval stale_graph_def log_options_def)

section \<open>The two searches on the same graph\<close>

subsection \<open>Walks and consistent heuristics\<close>

lemma graph_edge:
  assumes "map_of g u = Some nb" and "map_of nb v = Some w"
  shows "(u, nb) \<in> set g" and "(v, w) \<in> set nb"
  using assms by (auto dest: map_of_SomeD)



lemma positive_weightsD:
  "positive_weights g \<Longrightarrow> map_of g u = Some nb \<Longrightarrow> map_of nb v = Some w \<Longrightarrow> 0 < w"
  unfolding positive_weights_def list_all_iff by (auto dest!: map_of_SomeD)


lemma walk_Nil [simp]: "walk g start [] wt \<longleftrightarrow> wt = 0"
  by (auto simp: walk_def)






subsection \<open>The frontier of a walk\<close>


lemma open_not_closed: "open_at cs q n b \<Longrightarrow> \<not> closed_at cs q n b'"
  by (auto simp: open_at_def closed_at_def)






subsection \<open>Entries above the recorded cost\<close>


lemma entry_key_eq [simp]: "entry_key (c, est, p, n) = (n, c)"
  by (simp add: entry_key_def)











subsection \<open>Expanding a vertex at its recorded cost\<close>







subsection \<open>Termination and the result of the abstract search\<close>









subsection \<open>The two searches as instances of the abstract search\<close>















subsection \<open>Agreement\<close>









end
